theory Spec2Isabelle
  imports Main "HOL-Library.Multiset"
begin

section \<open>The streaming session controller of AudioWidgets.tsx\<close>

text \<open>
  The component \<^verbatim>\<open>AudioWidgets\<close> keeps its session in six refs (\<^verbatim>\<open>socketRef\<close>,
  \<^verbatim>\<open>recorderRef\<close>, \<^verbatim>\<open>audioBufferRef\<close>, \<^verbatim>\<open>mountRef\<close>, \<^verbatim>\<open>numReconnects\<close>,
  \<^verbatim>\<open>serverReadyRef\<close>) and drives it from event handlers. JavaScript runs each handler
  without interruption up to its next \<^verbatim>\<open>await\<close>, so every stretch of code between two
  suspension points is one function on the state here, and the environment (the browser's
  WebSocket, the recorder, the base64 encoder, React's unmount) chooses the order in which
  they run.
\<close>

subsection \<open>Data\<close>

text \<open>\<^verbatim>\<open>WebSocket.readyState\<close>.\<close>

datatype readyState = CONNECTING | OPEN | CLOSING | CLOSED

text \<open>The failures JavaScript can raise in the handlers.\<close>

datatype js_error = SyntaxError | TypeError | InvalidStateError

text \<open>A \<^verbatim>\<open>Blob\<close> is its bytes; \<^verbatim>\<open>new Blob(parts)\<close> is their concatenation.\<close>

type_synonym blob = "nat list"

text \<open>
  An \<^verbatim>\<open>AudioPrediction\<close> carries its emotions (name and score). The controller only
  passes them on, so the score is an opaque number here.
\<close>

type_synonym emotion = "string \<times> int"
type_synonym audioPrediction = "emotion list"

text \<open>
  The props of the component and what it reads from its surroundings:
  \<^verbatim>\<open>onTimeline\<close> tells whether the callback was given, \<^verbatim>\<open>environment\<close> is
  \<^verbatim>\<open>authContext.environment\<close>, and \<^verbatim>\<open>blobToBase64\<close> (lib/utilities/blobUtilities, not
  part of the reviewed sources) is taken as a parameter.
\<close>

record props =
  modelName :: string
  recordingLengthMs :: nat
  streamWindowLengthMs :: nat
  onTimeline :: bool
  environment :: string
  blobToBase64 :: "blob \<Rightarrow> string"

text \<open>
  The request of \<^verbatim>\<open>sendRequest\<close>:
  \<^verbatim>\<open>{ data: encodedBlob, models: { [modelName]: {} }, stream_window_ms }\<close>.
\<close>

record outbound =
  payload :: string
  models :: string
  stream_window_ms :: nat

text \<open>
  What \<^verbatim>\<open>socketOnMessage\<close> reads of \<^verbatim>\<open>event.data\<close>: \<^verbatim>\<open>JSON.parse\<close> throws a
  SyntaxError on text that is not JSON; on the JSON value \<^verbatim>\<open>null\<close> the property access
  \<^verbatim>\<open>response[modelName]\<close> throws a TypeError; on any other value the handler reads
  \<^verbatim>\<open>response[modelName]?.predictions\<close>, \<^verbatim>\<open>response[modelName]?.warning\<close> and
  \<^verbatim>\<open>response.error\<close>, each \<open>None\<close> when undefined.
\<close>

record response =
  predictions_field :: "audioPrediction list option"
  warning_field :: "string option"
  error_field :: "string option"

datatype inbound = Unparseable | JsonNull | JsonValue response

text \<open>
  The state: the refs and React state of the component, the activations of its
  asynchronous functions that are suspended at an \<^verbatim>\<open>await\<close>, and a record of the
  effects it had on its surroundings.
  \<^item> \<open>sockets\<close>: the ready state of every WebSocket created so far; a socket is named by
    its position, and \<open>socketRef\<close> holds such a name or \<open>None\<close> for \<^verbatim>\<open>null\<close>.
  \<^item> \<open>recorders\<close>: how many recorders \<^verbatim>\<open>AudioRecorder.create\<close> has returned;
    \<open>stopped\<close>: the recorders \<^verbatim>\<open>stopRecording\<close> was called on.
  \<^item> \<open>statusLog\<close>, \<open>timeline\<close>: the arguments of the calls of \<^verbatim>\<open>setStatus\<close> and
    \<^verbatim>\<open>onTimeline\<close>, oldest first.
  \<^item> \<open>creating\<close>: activations of \<^verbatim>\<open>socketOnOpen\<close> waiting for \<^verbatim>\<open>AudioRecorder.create()\<close>;
    \<open>recording\<close>: activations waiting for \<^verbatim>\<open>record(recordingLengthMs)\<close>;
    \<open>encoding\<close>: activations of \<^verbatim>\<open>sendRequest\<close> waiting for \<^verbatim>\<open>blobToBase64\<close>, each
    with its local \<^verbatim>\<open>socket\<close> and \<^verbatim>\<open>combinedBlob\<close>.
  \<^item> \<open>wire\<close>: the messages the sockets transmitted; \<open>received\<close>: the sockets whose
    message events were handled; \<open>drained\<close>: the arrays \<^verbatim>\<open>sendRequest\<close> took out of
    \<^verbatim>\<open>audioBufferRef\<close>; \<open>rejections\<close>: the failures that escaped a handler.
\<close>

record state =
  sockets :: "readyState list"
  socketRef :: "nat option"
  recorders :: nat
  recorderRef :: "nat option"
  stopped :: "nat list"
  audioBufferRef :: "blob list"
  mountRef :: bool
  numReconnects :: nat
  serverReadyRef :: bool
  predictions :: "audioPrediction list"
  statusLog :: "string list"
  timeline :: "audioPrediction list list"
  creating :: nat
  recording :: nat
  encoding :: "(nat \<times> blob) list"
  wire :: "(nat \<times> outbound) list"
  received :: "nat list"
  drained :: "blob list list"
  rejections :: "js_error list"

definition maxReconnects :: nat where
  "maxReconnects = 3"

subsection \<open>The WebSocket, as the component uses it\<close>

text \<open>
  \<^verbatim>\<open>socket.readyState\<close>. A reference always names a socket that exists; for a name that
  does not, the model answers \<open>CLOSED\<close>.
\<close>

definition readyStateOf :: "state \<Rightarrow> nat \<Rightarrow> readyState" where
  "readyStateOf s sid = (if sid < length (sockets s) then sockets s ! sid else CLOSED)"

text \<open>
  \<^verbatim>\<open>socket.close()\<close> (WHATWG WebSockets): nothing on a socket that is closing or closed;
  otherwise the closing handshake starts (a connecting socket fails its connection) and
  the ready state is \<open>CLOSING\<close>. It never throws when called without arguments.
\<close>

fun closed_by_call :: "readyState \<Rightarrow> readyState" where
  "closed_by_call CONNECTING = CLOSING"
| "closed_by_call OPEN = CLOSING"
| "closed_by_call CLOSING = CLOSING"
| "closed_by_call CLOSED = CLOSED"

definition socket_close :: "nat \<Rightarrow> state \<Rightarrow> state" where
  "socket_close sid s = s\<lparr>sockets := (sockets s)[sid := closed_by_call (readyStateOf s sid)]\<rparr>"

text \<open>
  \<^verbatim>\<open>socket.send(msg)\<close> (WHATWG WebSockets): throws InvalidStateError on a connecting
  socket, transmits on an open one, and on a closing or closed one returns without
  transmitting anything.
\<close>

definition socket_send :: "nat \<Rightarrow> outbound \<Rightarrow> state \<Rightarrow> state" where
  "socket_send sid msg s =
     (case readyStateOf s sid of
        CONNECTING \<Rightarrow> s\<lparr>rejections := rejections s @ [InvalidStateError]\<rparr>
      | OPEN \<Rightarrow> s\<lparr>wire := wire s @ [(sid, msg)]\<rparr>
      | CLOSING \<Rightarrow> s
      | CLOSED \<Rightarrow> s)"

subsection \<open>The handlers\<close>

definition setStatus :: "string \<Rightarrow> state \<Rightarrow> state" where
  "setStatus m s = s\<lparr>statusLog := statusLog s @ [m]\<rparr>"

text \<open>The status on display: the argument of the last \<^verbatim>\<open>setStatus\<close>, initially empty.\<close>

definition status :: "state \<Rightarrow> string" where
  "status s = (if statusLog s = [] then [] else last (statusLog s))"

text \<open>\<^verbatim>\<open>connect\<close> has no \<^verbatim>\<open>await\<close>: it runs to its end where it is called.\<close>

definition connect :: "state \<Rightarrow> state" where
  "connect s =
     (let s1 = s\<lparr>serverReadyRef := True\<rparr>;
          s2 = setStatus ''Connecting to server...'' s1
      in s2\<lparr>sockets := sockets s2 @ [CONNECTING], socketRef := Some (length (sockets s2))\<rparr>)"

text \<open>
  \<^verbatim>\<open>stopEverything\<close>: clears \<^verbatim>\<open>mountRef\<close>, closes and forgets the socket if there is
  one, stops and forgets the recorder if there is one.
\<close>

definition stopEverything :: "state \<Rightarrow> state" where
  "stopEverything s =
     (let s1 = s\<lparr>mountRef := False\<rparr>;
          s2 = (case socketRef s1 of
                  Some sid \<Rightarrow> (socket_close sid s1)\<lparr>socketRef := None\<rparr>
                | None \<Rightarrow> s1)
      in (case recorderRef s2 of
            Some r \<Rightarrow> s2\<lparr>stopped := stopped s2 @ [r], recorderRef := None\<rparr>
          | None \<Rightarrow> s2))"

text \<open>
  \<^verbatim>\<open>sendRequest\<close> up to its \<^verbatim>\<open>await blobToBase64(combinedBlob)\<close>: without a socket it
  returns; on an open socket it builds the combined blob, clears \<^verbatim>\<open>serverReadyRef\<close>,
  empties the buffer and suspends; on any other socket it closes the socket.
\<close>

definition sendRequest :: "state \<Rightarrow> state" where
  "sendRequest s =
     (case socketRef s of
        None \<Rightarrow> s
      | Some sid \<Rightarrow>
          if readyStateOf s sid = OPEN
          then s\<lparr>serverReadyRef := False,
                 audioBufferRef := [],
                 encoding := encoding s @ [(sid, concat (audioBufferRef s))],
                 drained := drained s @ [audioBufferRef s]\<rparr>
          else socket_close sid s)"

text \<open>The JSON text \<^verbatim>\<open>sendRequest\<close> builds once the blob is encoded.\<close>

definition request :: "props \<Rightarrow> blob \<Rightarrow> outbound" where
  "request p b =
     \<lparr>payload = blobToBase64 p b, models = modelName p,
      stream_window_ms = streamWindowLengthMs p\<rparr>"

text \<open>
  \<^verbatim>\<open>sendRequest\<close> after its \<^verbatim>\<open>await\<close>, for the \<open>i\<close>-th suspended activation: the
  request is sent on the socket the activation read before it suspended.
\<close>

definition remove_nth :: "nat \<Rightarrow> 'a list \<Rightarrow> 'a list" where
  "remove_nth i xs = take i xs @ drop (Suc i) xs"

definition sendRequest_encoded :: "props \<Rightarrow> nat \<Rightarrow> state \<Rightarrow> state" where
  "sendRequest_encoded p i s =
     (if i < length (encoding s)
      then (case encoding s ! i of
              (sid, b) \<Rightarrow>
                socket_send sid (request p b) (s\<lparr>encoding := remove_nth i (encoding s)\<rparr>))
      else s)"

text \<open>
  The head of the loop of \<^verbatim>\<open>socketOnOpen\<close>: \<^verbatim>\<open>while (mountRef.current)\<close> and the call
  \<^verbatim>\<open>recorderRef.current.record(recordingLengthMs)\<close>, which throws a TypeError when
  \<^verbatim>\<open>recorderRef.current\<close> is \<^verbatim>\<open>null\<close> and suspends the activation otherwise.
\<close>

definition loop_head :: "state \<Rightarrow> state" where
  "loop_head s =
     (if mountRef s
      then (case recorderRef s of
              None \<Rightarrow> s\<lparr>rejections := rejections s @ [TypeError]\<rparr>
            | Some r \<Rightarrow> s\<lparr>recording := recording s + 1\<rparr>)
      else s)"

text \<open>\<^verbatim>\<open>socketOnOpen\<close> up to \<^verbatim>\<open>await AudioRecorder.create()\<close>.\<close>

definition socketOnOpen :: "state \<Rightarrow> state" where
  "socketOnOpen s = (setStatus [] s)\<lparr>creating := creating (setStatus [] s) + 1\<rparr>"

text \<open>\<^verbatim>\<open>socketOnOpen\<close> from the recorder's creation to the first \<^verbatim>\<open>record\<close>.\<close>

definition socketOnOpen_created :: "state \<Rightarrow> state" where
  "socketOnOpen_created s =
     loop_head (s\<lparr>creating := creating s - 1,
                  recorderRef := Some (recorders s),
                  recorders := recorders s + 1\<rparr>)"

text \<open>
  One turn of the loop, from the return of \<^verbatim>\<open>record\<close> with a blob to the next
  \<^verbatim>\<open>record\<close>: the blob is pushed, \<^verbatim>\<open>sendRequest\<close> is called if the server is ready
  (the call is not awaited; it runs up to its own suspension), and the loop goes on.
\<close>

definition socketOnOpen_recorded :: "blob \<Rightarrow> state \<Rightarrow> state" where
  "socketOnOpen_recorded b s =
     (let s1 = s\<lparr>recording := recording s - 1, audioBufferRef := audioBufferRef s @ [b]\<rparr>;
          s2 = (if serverReadyRef s1 then sendRequest s1 else s1)
      in loop_head s2)"

text \<open>
  \<^verbatim>\<open>socketOnMessage\<close>. The result tells how the activation ended: \<open>None\<close> when it
  returned, \<open>Some e\<close> when \<open>e\<close> was thrown (there is no \<^verbatim>\<open>try\<close> in the component, so the
  promise of the handler is rejected). \<^verbatim>\<open>if (error)\<close> tests truthiness: \<open>truthy\<close>
  gives the error text that passes the test, and an empty string does not pass. An empty
  array is truthy, so \<^verbatim>\<open>predictions || []\<close> replaces \<open>None\<close> only.
\<close>

definition truthy :: "string option \<Rightarrow> string option" where
  "truthy v = (case v of None \<Rightarrow> None | Some e \<Rightarrow> if e = [] then None else Some e)"

definition socketOnMessage :: "props \<Rightarrow> inbound \<Rightarrow> state \<Rightarrow> js_error option \<times> state" where
  "socketOnMessage p msg s =
     (let s1 = setStatus [] s in
      case msg of
        Unparseable \<Rightarrow> (Some SyntaxError, s1)
      | JsonNull \<Rightarrow> (Some TypeError, s1)
      | JsonValue r \<Rightarrow>
          (let newPredictions = (case predictions_field r of None \<Rightarrow> [] | Some ps \<Rightarrow> ps) in
           case truthy (error_field r) of
             Some error \<Rightarrow> (None, stopEverything (setStatus error s1))
           | None \<Rightarrow>
             (let s2 = s1\<lparr>predictions := newPredictions\<rparr>;
                  s3 = (if onTimeline p then s2\<lparr>timeline := timeline s2 @ [newPredictions]\<rparr>
                        else s2);
                  s4 = (if newPredictions = []
                        then (if modelName p = ''burst''
                              then setStatus ''No vocal bursts detected'' s3
                              else setStatus ''No speech detected'' s3)
                        else s3)
              in (None, if audioBufferRef s4 \<noteq> [] then sendRequest s4
                        else s4\<lparr>serverReadyRef := True\<rparr>))))"

definition socketOnClose :: "state \<Rightarrow> state" where
  "socketOnClose s = (if mountRef s then connect (setStatus ''Reconnecting'' s) else s)"

text \<open>The status of \<^verbatim>\<open>socketOnError\<close>, a template literal over two lines.\<close>

definition failedStatus :: "props \<Rightarrow> string" where
  "failedStatus p =
     ''Failed to connect to the Hume API ('' @ environment p @ '').'' @ [CHR 0x0A] @
     ''      Please log out and verify that your API key is correct.''"

definition socketOnError :: "props \<Rightarrow> state \<Rightarrow> state" where
  "socketOnError p s =
     (if numReconnects s > maxReconnects
      then stopEverything (setStatus (failedStatus p) s)
      else s\<lparr>numReconnects := numReconnects s + 1\<rparr>)"

subsection \<open>The session as a transition system\<close>

text \<open>
  The events of the environment. A socket opens, delivers a message, closes, or fails
  (the browser then sets the ready state to \<open>CLOSED\<close> and fires \<^verbatim>\<open>error\<close> and then
  \<^verbatim>\<open>close\<close> in one task); \<^verbatim>\<open>AudioRecorder.create\<close>, \<^verbatim>\<open>record\<close> and \<^verbatim>\<open>blobToBase64\<close>
  return to a suspended activation; React unmounts the component and runs the cleanup of
  the effect, \<^verbatim>\<open>stopEverything\<close>.
\<close>

datatype event =
    EvOpen nat
  | EvMessage nat inbound
  | EvClose nat
  | EvFail nat
  | EvCreated
  | EvChunk blob
  | EvEncoded nat
  | EvUnmount

text \<open>
  When an event can happen: a socket opens from \<open>CONNECTING\<close>, delivers messages only
  while \<open>OPEN\<close>, and closes or fails once; a return needs an activation waiting for it.
\<close>

fun enabled :: "state \<Rightarrow> event \<Rightarrow> bool" where
  "enabled s (EvOpen sid) = (sid < length (sockets s) \<and> sockets s ! sid = CONNECTING)"
| "enabled s (EvMessage sid m) = (sid < length (sockets s) \<and> sockets s ! sid = OPEN)"
| "enabled s (EvClose sid) = (sid < length (sockets s) \<and> sockets s ! sid \<noteq> CLOSED)"
| "enabled s (EvFail sid) = (sid < length (sockets s) \<and> sockets s ! sid \<noteq> CLOSED)"
| "enabled s EvCreated = (0 < creating s)"
| "enabled s (EvChunk b) = (0 < recording s)"
| "enabled s (EvEncoded i) = (i < length (encoding s))"
| "enabled s EvUnmount = True"

definition reject :: "js_error option \<times> state \<Rightarrow> state" where
  "reject r = (case fst r of None \<Rightarrow> snd r
               | Some e \<Rightarrow> (snd r)\<lparr>rejections := rejections (snd r) @ [e]\<rparr>)"

fun step :: "props \<Rightarrow> event \<Rightarrow> state \<Rightarrow> state" where
  "step p (EvOpen sid) s = socketOnOpen (s\<lparr>sockets := (sockets s)[sid := OPEN]\<rparr>)"
| "step p (EvMessage sid m) s = reject (socketOnMessage p m (s\<lparr>received := received s @ [sid]\<rparr>))"
| "step p (EvClose sid) s = socketOnClose (s\<lparr>sockets := (sockets s)[sid := CLOSED]\<rparr>)"
| "step p (EvFail sid) s =
     socketOnClose (socketOnError p (s\<lparr>sockets := (sockets s)[sid := CLOSED]\<rparr>))"
| "step p EvCreated s = socketOnOpen_created s"
| "step p (EvChunk b) s = socketOnOpen_recorded b s"
| "step p (EvEncoded i) s = sendRequest_encoded p i s"
| "step p EvUnmount s = stopEverything s"

text \<open>A run: \<open>None\<close> when an event of the list cannot happen where it stands.\<close>

fun exec :: "props \<Rightarrow> state \<Rightarrow> event list \<Rightarrow> state option" where
  "exec p s [] = Some s"
| "exec p s (e # es) = (if enabled s e then exec p (step p e s) es else None)"

text \<open>
  The component when it is first rendered, and after its mount effect
  (\<^verbatim>\<open>mountRef.current = true; connect()\<close>). The effect has no dependencies: it runs
  once for a mounted component, and its cleanup once, when the component is unmounted
  for good.
\<close>

definition rendered :: state where
  "rendered =
     \<lparr>sockets = [], socketRef = None, recorders = 0, recorderRef = None, stopped = [],
      audioBufferRef = [], mountRef = True, numReconnects = 0, serverReadyRef = True,
      predictions = [], statusLog = [], timeline = [], creating = 0, recording = 0,
      encoding = [], wire = [], received = [], drained = [], rejections = []\<rparr>"

definition mounted :: state where
  "mounted = connect (rendered\<lparr>mountRef := True\<rparr>)"

text \<open>
  The one use of the component in the repository, \<^verbatim>\<open>ProsodyWidgets\<close>: the model
  \<^verbatim>\<open>prosody\<close>, chunks of 500 ms, a stream window of 5000 ms and no \<^verbatim>\<open>onTimeline\<close>. The
  environment's name and the encoder come from outside the reviewed sources.
\<close>

definition prosodyWidgets :: "string \<Rightarrow> (blob \<Rightarrow> string) \<Rightarrow> props" where
  "prosodyWidgets env enc =
     \<lparr>modelName = ''prosody'', recordingLengthMs = 500, streamWindowLengthMs = 5000,
      onTimeline = False, environment = env, blobToBase64 = enc\<rparr>"

text \<open>An instance to run the model on: one character per byte stands for the encoder.\<close>

definition exampleProps :: props where
  "exampleProps = prosodyWidgets ''prod'' (map char_of)"

text \<open>A response without a top-level error, with the given predictions.\<close>

definition answer :: "audioPrediction list \<Rightarrow> inbound" where
  "answer ps =
     JsonValue \<lparr>predictions_field = Some ps, warning_field = None, error_field = None\<rparr>"

text \<open>The blobs the recorder returned in a run, in order.\<close>

fun chunks :: "event list \<Rightarrow> blob list" where
  "chunks [] = []"
| "chunks (EvChunk b # es) = b # chunks es"
| "chunks (e # es) = chunks es"

subsection \<open>Invariants of the session\<close>

text \<open>
  The socket in \<^verbatim>\<open>socketRef\<close> exists; a component that is torn down has forgotten its
  socket; and every other socket is closed, or closing once the component is torn down:
  \<^verbatim>\<open>connect\<close> replaces the socket only from the close event of the socket it replaces.
\<close>

definition sockets_inv :: "state \<Rightarrow> bool" where
  "sockets_inv s \<longleftrightarrow>
     (\<forall>c. socketRef s = Some c \<longrightarrow> c < length (sockets s)) \<and>
     (\<not> mountRef s \<longrightarrow> socketRef s = None) \<and>
     (\<forall>sid < length (sockets s). socketRef s \<noteq> Some sid \<longrightarrow>
        sockets s ! sid = CLOSED \<or> (sockets s ! sid = CLOSING \<and> \<not> mountRef s))"

text \<open>The session is open: there is a socket in \<^verbatim>\<open>socketRef\<close> and it is open.\<close>

definition sessionOpen :: "state \<Rightarrow> bool" where
  "sessionOpen s = (case socketRef s of None \<Rightarrow> False | Some sid \<Rightarrow> readyStateOf s sid = OPEN)"

text \<open>
  Per socket: the requests it transmitted, the messages handled from it, the requests
  still being encoded for it, and the requests in flight (transmitted, not yet answered).
\<close>

definition sent :: "state \<Rightarrow> nat \<Rightarrow> nat" where
  "sent s sid = count_list (map fst (wire s)) sid"

definition answered :: "state \<Rightarrow> nat \<Rightarrow> nat" where
  "answered s sid = count_list (received s) sid"

definition pending :: "state \<Rightarrow> nat \<Rightarrow> nat" where
  "pending s sid = count_list (map fst (encoding s)) sid"

definition inFlight :: "state \<Rightarrow> nat \<Rightarrow> nat" where
  "inFlight s sid = sent s sid - answered s sid"

text \<open>
  A server that only answers: a message arrives on a socket only while a request is in
  flight on it. \<open>responses_only\<close> says so of every message of a run.
\<close>

fun solicited :: "state \<Rightarrow> event \<Rightarrow> bool" where
  "solicited s (EvMessage sid m) = (0 < inFlight s sid)"
| "solicited s e = True"

fun responses_only :: "props \<Rightarrow> state \<Rightarrow> event list \<Rightarrow> bool" where
  "responses_only p s [] = True"
| "responses_only p s (e # es) = (solicited s e \<and> responses_only p (step p e s) es)"

text \<open>
  The flow control: on every socket the answers never outnumber the requests, and at
  most one request is being encoded or in flight; a socket not yet created has none;
  and while the server counts as ready, nothing is being encoded or in flight on the
  socket in \<^verbatim>\<open>socketRef\<close>.
\<close>

definition flow_inv :: "state \<Rightarrow> bool" where
  "flow_inv s \<longleftrightarrow>
     (\<forall>sid. answered s sid \<le> sent s sid \<and> sent s sid + pending s sid \<le> Suc (answered s sid)) \<and>
     (\<forall>sid. length (sockets s) \<le> sid \<longrightarrow> sent s sid = 0 \<and> pending s sid = 0) \<and>
     (serverReadyRef s \<longrightarrow>
        (\<forall>c. socketRef s = Some c \<longrightarrow> sent s c + pending s c = answered s c))"

text \<open>Nothing is being encoded or in flight on the socket in \<^verbatim>\<open>socketRef\<close>.\<close>

definition idle :: "state \<Rightarrow> bool" where
  "idle s \<longleftrightarrow> (\<forall>c. socketRef s = Some c \<longrightarrow> sent s c + pending s c = answered s c)"

text \<open>
  The requests that were transmitted or are being encoded, and the request of every
  array \<^verbatim>\<open>sendRequest\<close> took out of the buffer, as multisets.
\<close>

definition requested :: "props \<Rightarrow> state \<Rightarrow> outbound multiset" where
  "requested p s = mset (map snd (wire s)) + mset (map (\<lambda>e. request p (snd e)) (encoding s))"

definition batches :: "props \<Rightarrow> state \<Rightarrow> outbound multiset" where
  "batches p s = mset (map (\<lambda>bs. request p (concat bs)) (drained s))"

text \<open>
  A request being encoded belongs to a socket that exists and was open when
  \<^verbatim>\<open>sendRequest\<close> read it: it is not connecting.
\<close>

definition encoding_inv :: "state \<Rightarrow> bool" where
  "encoding_inv s \<longleftrightarrow>
     (\<forall>e \<in> set (encoding s). fst e < length (sockets s) \<and> sockets s ! fst e \<noteq> CONNECTING)"

text \<open>The kinds of events.\<close>

fun is_message :: "event \<Rightarrow> bool" where
  "is_message (EvMessage sid m) = True"
| "is_message e = False"

fun is_chunk :: "event \<Rightarrow> bool" where
  "is_chunk (EvChunk b) = True"
| "is_chunk e = False"

fun is_closing :: "event \<Rightarrow> bool" where
  "is_closing (EvClose sid) = True"
| "is_closing (EvFail sid) = True"
| "is_closing e = False"

section \<open>Properties\<close>

subsection \<open>Unfolding the handlers\<close>

lemmas handler_defs =
  connect_def setStatus_def socketOnClose_def socketOnError_def maxReconnects_def
  stopEverything_def socket_close_def readyStateOf_def socketOnOpen_def
  socketOnOpen_created_def socketOnOpen_recorded_def loop_head_def sendRequest_def
  sendRequest_encoded_def socket_send_def socketOnMessage_def reject_def truthy_def
  request_def remove_nth_def

lemmas start_defs = mounted_def rendered_def exampleProps_def prosodyWidgets_def answer_def

lemmas handler_splits = option.splits inbound.splits readyState.splits prod.splits

subsection \<open>The sockets of a session\<close>

lemma closed_by_call_not_CLOSING [simp]:
  "(closed_by_call r \<noteq> CLOSING) = (r = CLOSED)"
  by (cases r) simp_all

lemma closed_by_call_CLOSED [simp]: "(closed_by_call r = CLOSED) = (r = CLOSED)"
  by (cases r) simp_all

lemma closed_by_call_not_live [simp]:
  "closed_by_call r \<noteq> OPEN" "closed_by_call r \<noteq> CONNECTING"
  by (cases r; simp)+

lemma nth_update_cases: "j < length xs \<Longrightarrow> xs[i := x] ! j = (if i = j then x else xs ! j)"
  by auto

lemma sockets_inv_mounted: "sockets_inv mounted"
  by (simp add: sockets_inv_def start_defs handler_defs)

lemma sockets_inv_updates [simp]:
  "sockets_inv (recorders_update f1 s) = sockets_inv s"
  "sockets_inv (recorderRef_update f2 s) = sockets_inv s"
  "sockets_inv (stopped_update f3 s) = sockets_inv s"
  "sockets_inv (audioBufferRef_update f4 s) = sockets_inv s"
  "sockets_inv (numReconnects_update f5 s) = sockets_inv s"
  "sockets_inv (serverReadyRef_update f6 s) = sockets_inv s"
  "sockets_inv (predictions_update f7 s) = sockets_inv s"
  "sockets_inv (statusLog_update f8 s) = sockets_inv s"
  "sockets_inv (timeline_update f9 s) = sockets_inv s"
  "sockets_inv (creating_update f10 s) = sockets_inv s"
  "sockets_inv (recording_update f11 s) = sockets_inv s"
  "sockets_inv (encoding_update f12 s) = sockets_inv s"
  "sockets_inv (wire_update f13 s) = sockets_inv s"
  "sockets_inv (received_update f14 s) = sockets_inv s"
  "sockets_inv (drained_update f15 s) = sockets_inv s"
  "sockets_inv (rejections_update f16 s) = sockets_inv s"
  by (simp_all add: sockets_inv_def)

lemma current_if_live:
  assumes "sockets_inv s" and "sid < length (sockets s)" and "sockets s ! sid \<noteq> CLOSED"
    and "mountRef s \<or> sockets s ! sid \<noteq> CLOSING"
  shows "socketRef s = Some sid"
  using assms unfolding sockets_inv_def by blast

lemma sockets_inv_setStatus [simp]: "sockets_inv (setStatus m s) = sockets_inv s"
  by (simp add: setStatus_def)

lemma sockets_inv_stopEverything [simp]: "sockets_inv s \<Longrightarrow> sockets_inv (stopEverything s)"
  by (auto simp: sockets_inv_def stopEverything_def socket_close_def readyStateOf_def Let_def
      nth_list_update split: option.splits)

lemma sockets_inv_sendRequest [simp]: "sockets_inv s \<Longrightarrow> sockets_inv (sendRequest s)"
  by (auto simp: sockets_inv_def sendRequest_def socket_close_def readyStateOf_def
      nth_list_update split: option.splits)

lemma sockets_inv_loop_head [simp]: "sockets_inv (loop_head s) = sockets_inv s"
  by (simp add: loop_head_def split: option.splits)

lemma sockets_inv_socketOnMessage [simp]:
  "sockets_inv s \<Longrightarrow> sockets_inv (reject (socketOnMessage p m s))"
  by (simp add: socketOnMessage_def reject_def Let_def split: inbound.splits option.splits)

lemma sockets_inv_socketOnError [simp]:
  "sockets_inv s \<Longrightarrow> sockets_inv (socketOnError p s)"
  by (simp add: socketOnError_def)

lemma sockets_inv_opened:
  assumes "sockets_inv s" and "sid < length (sockets s)" and "sockets s ! sid = CONNECTING"
  shows "sockets_inv (s\<lparr>sockets := (sockets s)[sid := OPEN]\<rparr>)"
proof -
  from assms have "socketRef s = Some sid"
    by (auto intro: current_if_live)
  with assms show ?thesis
    by (auto simp: sockets_inv_def nth_list_update)
qed

lemma sockets_inv_closed:
  assumes "sockets_inv s"
  shows "sockets_inv (s\<lparr>sockets := (sockets s)[sid := CLOSED]\<rparr>)"
  using assms by (auto simp: sockets_inv_def nth_update_cases)

lemma closed_current:
  assumes "sockets_inv s" and "sid < length (sockets s)" and "sockets s ! sid \<noteq> CLOSED"
    and "mountRef s"
  shows "socketRef (s\<lparr>sockets := (sockets s)[sid := CLOSED]\<rparr>) = Some sid"
  using current_if_live [OF assms(1-3)] assms(4) by simp

lemma sockets_inv_socketOnClose:
  assumes "sockets_inv s" and "mountRef s \<longrightarrow> (\<exists>sid. socketRef s = Some sid \<and> sockets s ! sid = CLOSED)"
  shows "sockets_inv (socketOnClose s)"
proof (cases "mountRef s")
  case True
  with assms obtain c where c: "socketRef s = Some c" "sockets s ! c = CLOSED"
    by blast
  have "sockets s ! sid = CLOSED" if "sid < length (sockets s)" for sid
    using that assms(1) c True by (cases "sid = c") (auto simp: sockets_inv_def)
  with True assms(1) show ?thesis
    by (auto simp: sockets_inv_def socketOnClose_def connect_def setStatus_def Let_def nth_append)
next
  case False
  with assms(1) show ?thesis
    by (simp add: socketOnClose_def)
qed

lemma sockets_inv_step:
  assumes "sockets_inv s" and "enabled s e"
  shows "sockets_inv (step p e s)"
proof (cases e)
  case (EvOpen sid)
  with assms show ?thesis
    by (simp add: socketOnOpen_def sockets_inv_opened)
next
  case (EvMessage sid m)
  with assms show ?thesis by simp
next
  case (EvClose sid)
  with assms have "socketRef s = Some sid" if "mountRef s"
    using that by (auto intro: current_if_live)
  with assms EvClose show ?thesis
    by (auto intro!: sockets_inv_socketOnClose sockets_inv_closed)
next
  case (EvFail sid)
  let ?s1 = "s\<lparr>sockets := (sockets s)[sid := CLOSED]\<rparr>"
  from assms EvFail have cur: "socketRef s = Some sid" if "mountRef s"
    using that by (auto intro: current_if_live)
  have inv1: "sockets_inv (socketOnError p ?s1)"
    using assms by (simp add: sockets_inv_closed)
  have "mountRef (socketOnError p ?s1) \<longrightarrow>
      (\<exists>c. socketRef (socketOnError p ?s1) = Some c \<and> sockets (socketOnError p ?s1) ! c = CLOSED)"
    using cur assms EvFail
    by (auto simp: socketOnError_def stopEverything_def Let_def socket_close_def split: option.splits)
  with inv1 EvFail show ?thesis
    by (auto intro!: sockets_inv_socketOnClose)
next
  case EvCreated
  with assms show ?thesis
    by (simp add: socketOnOpen_created_def)
next
  case (EvChunk b)
  with assms show ?thesis
    by (simp add: socketOnOpen_recorded_def Let_def)
next
  case (EvEncoded i)
  with assms show ?thesis
    by (simp add: sendRequest_encoded_def socket_send_def split: prod.splits readyState.splits)
next
  case EvUnmount
  with assms show ?thesis by simp
qed

subsection \<open>After teardown\<close>

text \<open>
  Once \<^verbatim>\<open>mountRef\<close> is false and the socket is forgotten, no handler creates a socket or
  sets either of them again.
\<close>

lemma torn_down_step:
  assumes "\<not> mountRef s" and "socketRef s = None"
  shows "\<not> mountRef (step p e s) \<and> socketRef (step p e s) = None \<and>
         length (sockets (step p e s)) = length (sockets s)"
  using assms by (cases e) (auto simp: handler_defs Let_def split: handler_splits)

lemma torn_down_exec:
  assumes "exec p s evs = Some s'" and "\<not> mountRef s" and "socketRef s = None"
  shows "\<not> mountRef s' \<and> socketRef s' = None \<and> length (sockets s') = length (sockets s)"
  using assms
proof (induction evs arbitrary: s)
  case Nil
  then show ?case by simp
next
  case (Cons e es)
  from Cons.prems have run: "exec p (step p e s) es = Some s'"
    by (simp split: if_splits)
  from torn_down_step [OF Cons.prems(2,3), of p e]
  have "\<not> mountRef (step p e s)" and "socketRef (step p e s) = None"
    and len: "length (sockets (step p e s)) = length (sockets s)"
    by simp_all
  with Cons.IH [OF run] show ?case by simp
qed

lemma stopEverything_twice: "stopEverything (stopEverything s) = stopEverything s"
  by (simp add: stopEverything_def socket_close_def Let_def split: option.splits)

lemma stopEverything_effect:
  "\<not> mountRef (stopEverything s) \<and> socketRef (stopEverything s) = None \<and>
   recorderRef (stopEverything s) = None \<and>
   length (sockets (stopEverything s)) = length (sockets s) \<and>
   rejections (stopEverything s) = rejections s"
  by (simp add: stopEverything_def socket_close_def Let_def split: option.splits)

text \<open>
  C9. Teardown is idempotent: a second \<^verbatim>\<open>stopEverything\<close> changes nothing, whatever the
  state (also with \<^verbatim>\<open>socketRef\<close> and \<^verbatim>\<open>recorderRef\<close> still \<^verbatim>\<open>null\<close>), and no failure
  escapes it. It clears \<^verbatim>\<open>mountRef\<close>, and from then on no event, a close event included,
  creates another socket: the session stays without a socket and unmounted.
\<close>

theorem stopEverything_idempotent:
  "stopEverything (stopEverything s) = stopEverything s \<and>
   rejections (stopEverything s) = rejections s \<and>
   \<not> mountRef (stopEverything s) \<and>
   socketOnClose (stopEverything s) = stopEverything s \<and>
   (\<forall>evs s'. exec p (stopEverything s) evs = Some s' \<longrightarrow>
      \<not> mountRef s' \<and> socketRef s' = None \<and> length (sockets s') = length (sockets s))"
proof -
  have "socketOnClose (stopEverything s) = stopEverything s"
    using stopEverything_effect [of s] by (simp add: socketOnClose_def)
  moreover have "\<forall>evs s'. exec p (stopEverything s) evs = Some s' \<longrightarrow>
      \<not> mountRef s' \<and> socketRef s' = None \<and> length (sockets s') = length (sockets s)"
    using torn_down_exec [of p "stopEverything s"] stopEverything_effect [of s] by auto
  ultimately show ?thesis
    using stopEverything_twice [of s] stopEverything_effect [of s] by simp
qed

text \<open>
  The theorem at work: on the component before its mount effect, where no socket and no
  recorder exists, and on the mounted component, where the close event of the socket
  that teardown closed arrives afterwards.
\<close>

theorem stopEverything_idempotent_witness:
  "stopEverything (stopEverything rendered) = stopEverything rendered \<and>
   socketRef rendered = None \<and> recorderRef rendered = None \<and>
   (\<exists>s'. exec exampleProps (stopEverything mounted) [EvClose 0] = Some s' \<and>
      \<not> mountRef s' \<and> socketRef s' = None \<and> sockets s' = [CLOSED])"
proof -
  have run: "exec exampleProps (stopEverything mounted) [EvClose 0] =
      Some (step exampleProps (EvClose 0) (stopEverything mounted))"
    by (simp add: start_defs handler_defs)
  have "sockets (step exampleProps (EvClose 0) (stopEverything mounted)) = [CLOSED]"
    by (simp add: start_defs handler_defs)
  moreover have "\<not> mountRef (step exampleProps (EvClose 0) (stopEverything mounted)) \<and>
      socketRef (step exampleProps (EvClose 0) (stopEverything mounted)) = None"
    using stopEverything_idempotent [of mounted exampleProps] run by blast
  moreover have "stopEverything (stopEverything rendered) = stopEverything rendered"
    using stopEverything_idempotent [of rendered exampleProps] by blast
  ultimately show ?thesis
    using run by (simp add: rendered_def)
qed

subsection \<open>The reconnect counter\<close>

lemma numReconnects_step: "numReconnects s \<le> numReconnects (step p e s)"
  by (cases e) (auto simp: handler_defs Let_def split: handler_splits)

lemma numReconnects_exec:
  "exec p s evs = Some s' \<Longrightarrow> numReconnects s \<le> numReconnects s'"
proof (induction evs arbitrary: s)
  case Nil
  then show ?case by simp
next
  case (Cons e es)
  from Cons.prems have "exec p (step p e s) es = Some s'"
    by (simp split: if_splits)
  from Cons.IH [OF this] numReconnects_step [of s p e] show ?case
    by simp
qed

text \<open>
  C3. With \<^verbatim>\<open>maxReconnects = 3\<close>, four socket failures in a row with no open in between
  do not end the session: \<^verbatim>\<open>socketOnError\<close> tests \<^verbatim>\<open>numReconnects > maxReconnects\<close>
  before it counts the failure, so after the fourth the counter is 4, the component is
  still mounted, a fifth socket is connecting and the status of the failure was never
  set. The fifth failure is the one that sets the status, once, and tears down.
\<close>

theorem four_errors_keep_reconnecting:
  "(case exec p mounted [EvFail 0, EvFail 1, EvFail 2, EvFail 3] of
      None \<Rightarrow> False
    | Some s \<Rightarrow> mountRef s \<and> numReconnects s = 4 \<and> socketRef s = Some 4 \<and>
        sockets s = [CLOSED, CLOSED, CLOSED, CLOSED, CONNECTING] \<and>
        count_list (statusLog s) (failedStatus p) = 0) \<and>
   (case exec p mounted [EvFail 0, EvFail 1, EvFail 2, EvFail 3, EvFail 4] of
      None \<Rightarrow> False
    | Some s \<Rightarrow> \<not> mountRef s \<and> socketRef s = None \<and>
        sockets s = [CLOSED, CLOSED, CLOSED, CLOSED, CLOSED] \<and>
        count_list (statusLog s) (failedStatus p) = 1)"
  by (simp add: mounted_def rendered_def handler_defs failedStatus_def)

text \<open>
  C4, as the code has it. A socket that opens leaves \<^verbatim>\<open>numReconnects\<close> as it is, and no
  event ever lowers it: the failures before an open count towards the ceiling together
  with the failures after it, and a failure that finds the counter above
  \<^verbatim>\<open>maxReconnects\<close> tears the session down.
\<close>

theorem numReconnects_never_reset:
  "numReconnects (step p (EvOpen sid) s) = numReconnects s \<and>
   (\<forall>evs s'. exec p s evs = Some s' \<longrightarrow> numReconnects s \<le> numReconnects s') \<and>
   (maxReconnects < numReconnects s \<longrightarrow> \<not> mountRef (step p (EvFail sid) s))"
proof -
  have "numReconnects (step p (EvOpen sid) s) = numReconnects s"
    by (simp add: handler_defs)
  moreover have "maxReconnects < numReconnects s \<longrightarrow> \<not> mountRef (step p (EvFail sid) s)"
    by (simp add: handler_defs Let_def split: option.splits)
  ultimately show ?thesis
    using numReconnects_exec [of p s] by blast
qed

theorem numReconnects_never_reset_witness:
  "numReconnects (step exampleProps (EvOpen 0) mounted) = 0 \<and>
   (\<exists>s'. exec exampleProps mounted [EvFail 0, EvOpen 1] = Some s' \<and>
      numReconnects mounted \<le> numReconnects s') \<and>
   maxReconnects < numReconnects (mounted\<lparr>numReconnects := 4\<rparr>) \<and>
   \<not> mountRef (step exampleProps (EvFail 0) (mounted\<lparr>numReconnects := 4\<rparr>))"
proof -
  have "enabled mounted (EvFail 0)"
    by (simp add: start_defs handler_defs)
  moreover have "enabled (step exampleProps (EvFail 0) mounted) (EvOpen 1)"
    by (simp add: start_defs handler_defs)
  ultimately have run: "exec exampleProps mounted [EvFail 0, EvOpen 1] =
      Some (step exampleProps (EvOpen 1) (step exampleProps (EvFail 0) mounted))"
    by simp
  have above: "maxReconnects < numReconnects (mounted\<lparr>numReconnects := 4\<rparr>)"
    by (simp add: maxReconnects_def)
  have zero: "numReconnects mounted = 0"
    by (simp add: start_defs handler_defs)
  from numReconnects_never_reset [of exampleProps 0 mounted] zero
  have "numReconnects (step exampleProps (EvOpen 0) mounted) = 0"
    by simp
  moreover from numReconnects_never_reset [of exampleProps 0 mounted] run
  have "numReconnects mounted \<le>
      numReconnects (step exampleProps (EvOpen 1) (step exampleProps (EvFail 0) mounted))"
    by blast
  moreover from numReconnects_never_reset [of exampleProps 0 "mounted\<lparr>numReconnects := 4\<rparr>"] above
  have "\<not> mountRef (step exampleProps (EvFail 0) (mounted\<lparr>numReconnects := 4\<rparr>))"
    by blast
  ultimately show ?thesis
    using run above by simp
qed

text \<open>
  C4 fails as stated: after four failures the fifth socket opens, the counter is still 4
  and not 0, and the first failure after that open ends the session.
\<close>

theorem open_resets_counter_counterexample:
  "map_option numReconnects
     (exec exampleProps mounted [EvFail 0, EvFail 1, EvFail 2, EvFail 3, EvOpen 4]) = Some 4 \<and>
   map_option mountRef
     (exec exampleProps mounted [EvFail 0, EvFail 1, EvFail 2, EvFail 3, EvOpen 4, EvFail 4])
     = Some False"
  by (simp add: start_defs handler_defs)

subsection \<open>Messages that cannot be read\<close>

text \<open>
  C6, as the code has it. On a message that is not JSON, \<^verbatim>\<open>JSON.parse\<close> throws after the
  status was cleared, and nothing catches it: the handler ends with the SyntaxError (a
  TypeError on the JSON value \<^verbatim>\<open>null\<close>), no status describes the failure, teardown
  does not run, and but for the cleared status the session is as it was.
\<close>

theorem malformed_message_escapes:
  "socketOnMessage p Unparseable s = (Some SyntaxError, setStatus [] s) \<and>
   socketOnMessage p JsonNull s = (Some TypeError, setStatus [] s) \<and>
   step p (EvMessage sid Unparseable) s =
     s\<lparr>received := received s @ [sid], statusLog := statusLog s @ [[]],
       rejections := rejections s @ [SyntaxError]\<rparr>"
  by (simp add: socketOnMessage_def reject_def setStatus_def Let_def)

text \<open>
  C6 fails as stated: an unreadable message on the open socket leaves the component
  mounted with its socket open, the status empty, and the SyntaxError escaped.
\<close>

theorem malformed_message_counterexample:
  "map_option (\<lambda>s. (mountRef s, sockets s, socketRef s, status s, rejections s))
     (exec exampleProps mounted [EvOpen 0, EvMessage 0 Unparseable]) =
   Some (True, [OPEN], Some 0, [], [SyntaxError])"
  by (simp add: start_defs handler_defs status_def)

subsection \<open>Reachable states; what a torn-down session still does\<close>

lemma sockets_inv_exec:
  assumes "exec p s evs = Some s'" and "sockets_inv s"
  shows "sockets_inv s'"
  using assms
proof (induction evs arbitrary: s)
  case Nil
  then show ?case by simp
next
  case (Cons e es)
  from Cons.prems(1) have en: "enabled s e" and run: "exec p (step p e s) es = Some s'"
    by (simp_all split: if_splits)
  from sockets_inv_step [OF Cons.prems(2) en] Cons.IH [OF run] show ?case
    by simp
qed

lemma sockets_inv_reachable: "exec p mounted evs = Some s \<Longrightarrow> sockets_inv s"
  by (rule sockets_inv_exec [OF _ sockets_inv_mounted])

lemma torn_down_sockets:
  assumes "sockets_inv s" and "\<not> mountRef s"
  shows "set (sockets s) \<subseteq> {CLOSING, CLOSED}"
proof
  fix r assume "r \<in> set (sockets s)"
  then obtain i where "i < length (sockets s)" and "sockets s ! i = r"
    by (auto simp: in_set_conv_nth)
  with assms show "r \<in> {CLOSING, CLOSED}"
    by (auto simp: sockets_inv_def)
qed

lemma set_update_closed:
  assumes "set xs \<subseteq> {CLOSING, CLOSED}" and "r = CLOSING \<or> r = CLOSED"
  shows "set (xs[i := r]) \<subseteq> {CLOSING, CLOSED}"
  using assms set_update_subset_insert [of xs i r] by blast

lemma nth_closed:
  assumes "set xs \<subseteq> {CLOSING, CLOSED}" and "i < length xs"
  shows "xs ! i = CLOSING \<or> xs ! i = CLOSED"
  using assms nth_mem [of i xs] by blast

lemma in_set_updateD: "x \<in> set (xs[i := r]) \<Longrightarrow> x = r \<or> x \<in> set xs"
  using set_update_subset_insert [of xs i r] by blast

lemma nth_not_live:
  assumes "set xs \<subseteq> {CLOSING, CLOSED}" and "i < length xs"
  shows "xs ! i \<noteq> OPEN" and "xs ! i \<noteq> CONNECTING"
  using nth_closed [OF assms] by auto

lemma silent_step:
  assumes "\<not> mountRef s" and "set (sockets s) \<subseteq> {CLOSING, CLOSED}" and "enabled s e"
  shows "\<not> mountRef (step p e s) \<and> set (sockets (step p e s)) \<subseteq> {CLOSING, CLOSED} \<and>
         wire (step p e s) = wire s \<and> drained (step p e s) = drained s \<and>
         audioBufferRef (step p e s) = audioBufferRef s @ chunks [e]"
proof (cases e)
  case (EvOpen sid)
  with assms show ?thesis
    by (auto dest: nth_not_live)
next
  case (EvMessage sid m)
  with assms show ?thesis
    by (auto dest: nth_not_live)
next
  case (EvClose sid)
  with assms show ?thesis
    by (auto simp: handler_defs dest!: in_set_updateD)
next
  case (EvFail sid)
  with assms show ?thesis
    by (auto simp: handler_defs Let_def split: option.splits dest!: in_set_updateD)
next
  case EvCreated
  with assms show ?thesis
    by (auto simp: handler_defs)
next
  case (EvChunk b)
  with assms show ?thesis
    by (auto simp: handler_defs Let_def split: option.splits dest!: in_set_updateD dest: nth_not_live)
next
  case (EvEncoded i)
  with assms show ?thesis
    by (auto simp: handler_defs dest: nth_closed split: prod.splits readyState.splits)
next
  case EvUnmount
  with assms show ?thesis
    by (auto simp: handler_defs Let_def split: option.splits dest!: in_set_updateD)
qed

lemma chunks_append [simp]: "chunks (xs @ ys) = chunks xs @ chunks ys"
  by (induction xs rule: chunks.induct) simp_all

lemma chunks_Cons: "chunks (e # es) = chunks [e] @ chunks es"
  using chunks_append [of "[e]" es] by simp

lemma silent_exec:
  assumes "exec p s evs = Some s'" and "\<not> mountRef s" and "set (sockets s) \<subseteq> {CLOSING, CLOSED}"
  shows "\<not> mountRef s' \<and> set (sockets s') \<subseteq> {CLOSING, CLOSED} \<and>
         wire s' = wire s \<and> drained s' = drained s \<and>
         audioBufferRef s' = audioBufferRef s @ chunks evs"
  using assms
proof (induction evs arbitrary: s)
  case Nil
  then show ?case by simp
next
  case (Cons e es)
  from Cons.prems(1) have en: "enabled s e" and run: "exec p (step p e s) es = Some s'"
    by (simp_all split: if_splits)
  note one = silent_step [OF Cons.prems(2,3) en, of p]
  from one have "\<not> mountRef (step p e s)" and "set (sockets (step p e s)) \<subseteq> {CLOSING, CLOSED}"
    by simp_all
  from Cons.IH [OF run this] one show ?case
    by (simp add: chunks_Cons [of e es])
qed

text \<open>
  C8. Once the component is torn down (\<^verbatim>\<open>mountRef\<close> is false, as \<^verbatim>\<open>stopEverything\<close>
  leaves it), whatever happens next and in whatever order, nothing more is transmitted
  and no batch is taken out of the buffer: a blob that \<^verbatim>\<open>record\<close> returns after the
  teardown is pushed on the buffer and stays there.
\<close>

theorem no_audio_sent_after_stop:
  assumes "exec p mounted evs = Some s" and "\<not> mountRef s" and "exec p s evs' = Some s'"
  shows "wire s' = wire s \<and> drained s' = drained s \<and>
         audioBufferRef s' = audioBufferRef s @ chunks evs'"
  using silent_exec [OF assms(3,2)] torn_down_sockets [OF sockets_inv_reachable [OF assms(1)] assms(2)]
  by simp

theorem no_audio_sent_after_stop_witness:
  "\<exists>s s'. exec exampleProps mounted [EvOpen 0, EvCreated, EvUnmount] = Some s \<and> \<not> mountRef s \<and>
     exec exampleProps s [EvChunk [7, 8], EvClose 0] = Some s' \<and>
     wire s' = wire s \<and> drained s' = drained s \<and> audioBufferRef s' = audioBufferRef s @ [[7, 8]]"
proof -
  define s where "s = step exampleProps EvUnmount
    (step exampleProps EvCreated (step exampleProps (EvOpen 0) mounted))"
  define s' where "s' = step exampleProps (EvClose 0) (step exampleProps (EvChunk [7, 8]) s)"
  have run: "exec exampleProps mounted [EvOpen 0, EvCreated, EvUnmount] = Some s"
    by (simp add: s_def start_defs handler_defs)
  have stopped: "\<not> mountRef s"
    by (simp add: s_def start_defs handler_defs)
  have run': "exec exampleProps s [EvChunk [7, 8], EvClose 0] = Some s'"
    by (simp add: s'_def s_def start_defs handler_defs)
  from no_audio_sent_after_stop [OF run stopped run'] run stopped run' show ?thesis
    by auto
qed

subsection \<open>Sending while the session is not open\<close>

text \<open>
  What becomes of a request whose socket is no longer open when its encoding ends: the
  socket is closing or closed, never connecting, and \<^verbatim>\<open>socket.send\<close> on it transmits
  nothing and does not throw.
\<close>

lemma encoding_inv_updates [simp]:
  "encoding_inv (socketRef_update g1 s) = encoding_inv s"
  "encoding_inv (recorders_update f1 s) = encoding_inv s"
  "encoding_inv (recorderRef_update f2 s) = encoding_inv s"
  "encoding_inv (stopped_update f3 s) = encoding_inv s"
  "encoding_inv (audioBufferRef_update f4 s) = encoding_inv s"
  "encoding_inv (numReconnects_update f5 s) = encoding_inv s"
  "encoding_inv (mountRef_update f6 s) = encoding_inv s"
  "encoding_inv (predictions_update f7 s) = encoding_inv s"
  "encoding_inv (statusLog_update f8 s) = encoding_inv s"
  "encoding_inv (timeline_update f9 s) = encoding_inv s"
  "encoding_inv (creating_update f10 s) = encoding_inv s"
  "encoding_inv (recording_update f11 s) = encoding_inv s"
  "encoding_inv (wire_update f13 s) = encoding_inv s"
  "encoding_inv (drained_update f15 s) = encoding_inv s"
  "encoding_inv (rejections_update f16 s) = encoding_inv s"
  "encoding_inv (serverReadyRef_update f17 s) = encoding_inv s"
  "encoding_inv (received_update f18 s) = encoding_inv s"
  by (simp_all add: encoding_inv_def)

lemma encoding_inv_sockets:
  assumes "encoding_inv s" and "r \<noteq> CONNECTING"
  shows "encoding_inv (s\<lparr>sockets := (sockets s)[sid := r]\<rparr>)"
  using assms by (auto simp: encoding_inv_def nth_update_cases)

lemma encoding_inv_mounted: "encoding_inv mounted"
  by (simp add: encoding_inv_def start_defs handler_defs)

lemma encoding_inv_setStatus [simp]: "encoding_inv (setStatus m s) = encoding_inv s"
  by (simp add: setStatus_def)

lemma encoding_inv_loop_head [simp]: "encoding_inv (loop_head s) = encoding_inv s"
  by (simp add: loop_head_def split: option.splits)

lemma encoding_inv_stopEverything [simp]:
  "encoding_inv s \<Longrightarrow> encoding_inv (stopEverything s)"
  by (auto simp: stopEverything_def socket_close_def Let_def encoding_inv_def nth_update_cases
      split: option.splits)

lemma encoding_inv_sendRequest [simp]:
  "encoding_inv s \<Longrightarrow> encoding_inv (sendRequest s)"
  by (auto simp: sendRequest_def socket_close_def encoding_inv_def readyStateOf_def
      nth_update_cases split: option.splits if_splits)

lemma encoding_inv_connect [simp]: "encoding_inv s \<Longrightarrow> encoding_inv (connect s)"
  by (auto simp: connect_def setStatus_def Let_def encoding_inv_def nth_append)

lemma encoding_inv_socketOnClose [simp]: "encoding_inv s \<Longrightarrow> encoding_inv (socketOnClose s)"
  by (simp add: socketOnClose_def)

lemma encoding_inv_socketOnError [simp]: "encoding_inv s \<Longrightarrow> encoding_inv (socketOnError p s)"
  by (simp add: socketOnError_def)

lemma encoding_inv_socketOnMessage [simp]:
  "encoding_inv s \<Longrightarrow> encoding_inv (reject (socketOnMessage p m s))"
  by (simp add: socketOnMessage_def reject_def Let_def split: inbound.splits option.splits)

lemma set_remove_nth: "set (remove_nth i xs) \<subseteq> set xs"
  unfolding remove_nth_def using set_take_subset [of i xs] set_drop_subset [of "Suc i" xs]
  by auto

lemma encoding_inv_encoded [simp]:
  assumes "encoding_inv s"
  shows "encoding_inv (sendRequest_encoded p i s)"
proof -
  have "encoding_inv (s\<lparr>encoding := remove_nth i (encoding s)\<rparr>)"
    using assms set_remove_nth [of i "encoding s"] by (auto simp: encoding_inv_def)
  then show ?thesis
    using assms
    by (simp add: sendRequest_encoded_def socket_send_def split: prod.splits readyState.splits)
qed

lemma encoding_inv_step:
  assumes "encoding_inv s"
  shows "encoding_inv (step p e s)"
proof (cases e)
  case (EvOpen sid)
  with assms show ?thesis by (simp add: socketOnOpen_def encoding_inv_sockets)
next
  case (EvClose sid)
  with assms show ?thesis by (simp add: encoding_inv_sockets)
next
  case (EvFail sid)
  with assms show ?thesis by (simp add: encoding_inv_sockets)
next
  case (EvChunk b)
  with assms show ?thesis by (simp add: socketOnOpen_recorded_def Let_def)
qed (use assms in \<open>simp_all add: socketOnOpen_created_def\<close>)

lemma encoding_inv_exec:
  assumes "exec p s evs = Some s'" and "encoding_inv s"
  shows "encoding_inv s'"
  using assms
proof (induction evs arbitrary: s)
  case Nil
  then show ?case by simp
next
  case (Cons e es)
  from Cons.prems(1) have "exec p (step p e s) es = Some s'"
    by (simp split: if_splits)
  from Cons.IH [OF this encoding_inv_step [OF Cons.prems(2)]] show ?case .
qed

lemma late_send_dropped:
  assumes "encoding_inv s" and "i < length (encoding s)"
    and "readyStateOf s (fst (encoding s ! i)) \<noteq> OPEN"
  shows "(readyStateOf s (fst (encoding s ! i)) = CLOSING \<or>
          readyStateOf s (fst (encoding s ! i)) = CLOSED) \<and>
         wire (step p (EvEncoded i) s) = wire s \<and>
         rejections (step p (EvEncoded i) s) = rejections s \<and>
         sockets (step p (EvEncoded i) s) = sockets s"
proof -
  obtain c b where e: "encoding s ! i = (c, b)"
    by (cases "encoding s ! i")
  with assms(1,2) nth_mem [OF assms(2)] have "c < length (sockets s)" "sockets s ! c \<noteq> CONNECTING"
    by (auto simp: encoding_inv_def)
  with assms(2,3) e show ?thesis
    by (cases "sockets s ! c")
      (simp_all add: sendRequest_encoded_def socket_send_def readyStateOf_def)
qed

lemma not_open_after_sendRequest:
  assumes "sockets_inv s" and "\<not> sessionOpen s"
  shows "set (sockets (sendRequest s)) \<subseteq> {CLOSING, CLOSED} \<and>
         encoding (sendRequest s) = encoding s \<and> wire (sendRequest s) = wire s \<and>
         drained (sendRequest s) = drained s \<and> audioBufferRef (sendRequest s) = audioBufferRef s \<and>
         (\<forall>sid. socketRef s = Some sid \<longrightarrow>
            sockets (sendRequest s) = (sockets s)[sid := closed_by_call (sockets s ! sid)])"
proof -
  have others: "r = CLOSING \<or> r = CLOSED"
    if "r \<in> set (sockets s)" and "\<forall>c. socketRef s = Some c \<longrightarrow> sockets s ! c \<noteq> r" for r
  proof -
    from that(1) obtain i where "i < length (sockets s)" and "sockets s ! i = r"
      by (auto simp: in_set_conv_nth)
    with assms(1) that(2) show ?thesis
      by (auto simp: sockets_inv_def)
  qed
  show ?thesis
  proof (cases "socketRef s")
    case None
    with others show ?thesis
      by (auto simp: sendRequest_def)
  next
    case (Some c)
    with assms have c: "c < length (sockets s)" "sockets s ! c \<noteq> OPEN"
      by (auto simp: sockets_inv_def sessionOpen_def readyStateOf_def)
    have "r = CLOSING \<or> r = CLOSED"
      if "r \<in> set ((sockets s)[c := closed_by_call (sockets s ! c)])" for r
    proof -
      from that c(1) obtain i where i: "i < length (sockets s)"
        and r: "r = (sockets s)[c := closed_by_call (sockets s ! c)] ! i"
        by (auto simp: in_set_conv_nth)
      show ?thesis
      proof (cases "i = c")
        case True
        with r c show ?thesis by (cases "sockets s ! c") simp_all
      next
        case False
        with r i Some assms(1) show ?thesis
          by (auto simp: sockets_inv_def)
      qed
    qed
    with Some c show ?thesis
      by (auto simp: sendRequest_def socket_close_def readyStateOf_def)
  qed
qed

text \<open>
  C7, as the code has it. \<^verbatim>\<open>sendRequest\<close> reads the ready state once, when it is called.
  Called in a session that is not open, it closes the session: afterwards every socket of
  the session is closing or closed (\<^verbatim>\<open>close()\<close> was called on the socket in
  \<^verbatim>\<open>socketRef\<close>, and without one teardown had closed it before), no request was built or
  transmitted, and the buffer is untouched. The call is the one of the capture loop when
  the server counts as ready: a message arrives on an open socket only.
\<close>

theorem send_while_not_open_closes:
  assumes "exec p mounted evs = Some s" and "\<not> sessionOpen s"
  shows "set (sockets (sendRequest s)) \<subseteq> {CLOSING, CLOSED} \<and>
         (\<forall>sid. socketRef s = Some sid \<longrightarrow>
            sockets (sendRequest s) = (sockets s)[sid := closed_by_call (sockets s ! sid)]) \<and>
         encoding (sendRequest s) = encoding s \<and> wire (sendRequest s) = wire s \<and>
         drained (sendRequest s) = drained s \<and>
         audioBufferRef (sendRequest s) = audioBufferRef s \<and>
         (serverReadyRef s \<longrightarrow>
            set (sockets (step p (EvChunk b) s)) \<subseteq> {CLOSING, CLOSED} \<and>
            encoding (step p (EvChunk b) s) = encoding s \<and>
            wire (step p (EvChunk b) s) = wire s \<and>
            drained (step p (EvChunk b) s) = drained s \<and>
            audioBufferRef (step p (EvChunk b) s) = audioBufferRef s @ [b])"
proof -
  note inv = sockets_inv_reachable [OF assms(1)]
  let ?s1 = "s\<lparr>recording := recording s - 1, audioBufferRef := audioBufferRef s @ [b]\<rparr>"
  have "sockets_inv ?s1" and "\<not> sessionOpen ?s1"
    using inv assms(2)
    by (auto simp: sessionOpen_def readyStateOf_def split: option.splits if_splits)
  from not_open_after_sendRequest [OF this] not_open_after_sendRequest [OF inv assms(2)]
  show ?thesis
    by (simp add: socketOnOpen_recorded_def loop_head_def Let_def split: option.splits)
qed

theorem send_while_not_open_closes_witness:
  "\<exists>s. exec exampleProps mounted [EvOpen 0, EvCreated, EvClose 0] = Some s \<and>
     \<not> sessionOpen s \<and> serverReadyRef s \<and> socketRef s = Some 1 \<and>
     sockets s = [CLOSED, CONNECTING] \<and>
     sockets (sendRequest s) = [CLOSED, CLOSING] \<and>
     sockets (step exampleProps (EvChunk [2]) s) = [CLOSED, CLOSING] \<and>
     wire (step exampleProps (EvChunk [2]) s) = wire s \<and>
     drained (step exampleProps (EvChunk [2]) s) = drained s \<and>
     audioBufferRef (step exampleProps (EvChunk [2]) s) = audioBufferRef s @ [[2]]"
proof -
  define s where "s = step exampleProps (EvClose 0)
    (step exampleProps EvCreated (step exampleProps (EvOpen 0) mounted))"
  have run: "exec exampleProps mounted [EvOpen 0, EvCreated, EvClose 0] = Some s"
    unfolding s_def by code_simp
  have shut: "\<not> sessionOpen s" and ready: "serverReadyRef s"
    and socks: "sockets s = [CLOSED, CONNECTING]" and cur: "socketRef s = Some 1"
    unfolding s_def by code_simp+
  note main = send_while_not_open_closes [OF run shut, of "[2]"]
  from main cur socks have "sockets (sendRequest s) = [CLOSED, CLOSING]"
    by simp
  moreover have "sockets (step exampleProps (EvChunk [2]) s) = [CLOSED, CLOSING]"
    unfolding s_def by code_simp
  moreover from main ready
  have "wire (step exampleProps (EvChunk [2]) s) = wire s"
    and "drained (step exampleProps (EvChunk [2]) s) = drained s"
    and "audioBufferRef (step exampleProps (EvChunk [2]) s) = audioBufferRef s @ [[2]]"
    by blast+
  ultimately show ?thesis
    using run shut ready socks cur by (intro exI [of _ s] conjI)
qed

text \<open>
  C7 fails as stated: a request is started on the open socket, the socket closes while
  the blob is being encoded, and \<^verbatim>\<open>connect\<close> makes a new socket. When the encoding ends,
  \<^verbatim>\<open>socket.send\<close> is called on the closed socket with no second look at its ready
  state: the batch was taken out of the buffer and is transmitted nowhere, nothing is
  thrown, and no socket is closed for it (the new one is still connecting).
\<close>

theorem late_send_counterexample:
  "map_option sessionOpen
     (exec exampleProps mounted [EvOpen 0, EvCreated, EvChunk [1], EvClose 0]) = Some False \<and>
   map_option (\<lambda>s. (sockets s, encoding s, drained s))
     (exec exampleProps mounted [EvOpen 0, EvCreated, EvChunk [1], EvClose 0])
     = Some ([CLOSED, CONNECTING], [(0, [1])], [[[1]]]) \<and>
   map_option (\<lambda>s. (sockets s, socketRef s, map fst (wire s), encoding s, audioBufferRef s,
       drained s, rejections s))
     (exec exampleProps mounted [EvOpen 0, EvCreated, EvChunk [1], EvClose 0, EvEncoded 0])
     = Some ([CLOSED, CONNECTING], Some 1, [], [], [], [[[1]]], [])"
  by code_simp

subsection \<open>A message with an error\<close>

text \<open>
  C5, as the code has it. A message whose top-level \<^verbatim>\<open>error\<close> passes \<^verbatim>\<open>if (error)\<close> (a
  string that is not empty) ends the session: the handler sets the error text as the
  status and runs \<^verbatim>\<open>stopEverything\<close>, neither \<^verbatim>\<open>setPredictions\<close> nor \<^verbatim>\<open>onTimeline\<close> is
  called, and whatever happens afterwards, nothing is transmitted and no batch is taken
  out of the buffer, however many blobs are queued.
\<close>

theorem fatal_error_message:
  assumes "exec p mounted evs = Some s" and "enabled s (EvMessage sid (JsonValue r))"
    and "error_field r = Some e" and "e \<noteq> []"
  shows "(let s' = step p (EvMessage sid (JsonValue r)) s in
          s' = stopEverything (setStatus e (setStatus [] (s\<lparr>received := received s @ [sid]\<rparr>))) \<and>
          predictions s' = predictions s \<and> timeline s' = timeline s \<and> status s' = e \<and>
          \<not> mountRef s' \<and> socketRef s' = None \<and> recorderRef s' = None \<and>
          set (sockets s') \<subseteq> {CLOSING, CLOSED} \<and> audioBufferRef s' = audioBufferRef s \<and>
          (\<forall>evs' s''. exec p s' evs' = Some s'' \<longrightarrow>
             wire s'' = wire s \<and> drained s'' = drained s))"
proof -
  define s' where "s' = step p (EvMessage sid (JsonValue r)) s"
  have eq: "s' = stopEverything (setStatus e (setStatus [] (s\<lparr>received := received s @ [sid]\<rparr>)))"
    using assms(3,4) by (simp add: s'_def socketOnMessage_def reject_def truthy_def Let_def)
  have inv: "sockets_inv s'"
    unfolding s'_def by (rule sockets_inv_step [OF sockets_inv_reachable [OF assms(1)] assms(2)])
  have down: "\<not> mountRef s'" "socketRef s' = None" "recorderRef s' = None"
    using stopEverything_effect unfolding eq by simp_all
  have same: "predictions s' = predictions s" "timeline s' = timeline s" "status s' = e"
    "wire s' = wire s" "drained s' = drained s" "audioBufferRef s' = audioBufferRef s"
    unfolding eq
    by (simp_all add: stopEverything_def setStatus_def status_def socket_close_def Let_def
        split: option.splits)
  note closed = torn_down_sockets [OF inv down(1)]
  have "wire s'' = wire s \<and> drained s'' = drained s" if "exec p s' evs' = Some s''" for evs' s''
    using silent_exec [OF that down(1) closed] same by simp
  with eq down same closed show ?thesis
    unfolding s'_def [symmetric] Let_def by blast
qed

theorem fatal_error_message_witness:
  "\<exists>s r s'. exec exampleProps mounted [EvOpen 0, EvCreated, EvChunk [1], EvEncoded 0, EvChunk [2]] = Some s \<and>
     error_field r = Some ''x'' \<and> audioBufferRef s = [[2]] \<and>
     s' = step exampleProps (EvMessage 0 (JsonValue r)) s \<and> status s' = ''x'' \<and> \<not> mountRef s' \<and>
     predictions s' = [] \<and> sockets s' = [CLOSING] \<and>
     map_option wire (exec exampleProps s' [EvChunk [3], EvClose 0]) = Some (wire s)"
proof -
  define s where "s = step exampleProps (EvChunk [2]) (step exampleProps (EvEncoded 0)
    (step exampleProps (EvChunk [1]) (step exampleProps EvCreated
      (step exampleProps (EvOpen 0) mounted))))"
  define r where "r = \<lparr>predictions_field = Some [[(''Joy'', 8)]], warning_field = None,
    error_field = Some ''x''\<rparr>"
  define s' where "s' = step exampleProps (EvMessage 0 (JsonValue r)) s"
  have run: "exec exampleProps mounted [EvOpen 0, EvCreated, EvChunk [1], EvEncoded 0, EvChunk [2]] = Some s"
    by (simp add: s_def start_defs handler_defs)
  have en: "enabled s (EvMessage 0 (JsonValue r))"
    by (simp add: s_def start_defs handler_defs)
  have err: "error_field r = Some ''x''" and ne: "''x'' \<noteq> []"
    by (simp_all add: r_def)
  have buf: "audioBufferRef s = [[2]]" and preds: "predictions s = []"
    by (simp_all add: s_def start_defs handler_defs)
  have socks: "sockets s' = [CLOSING]"
    by (simp add: s'_def s_def r_def start_defs handler_defs Let_def)
  have run': "exec exampleProps s' [EvChunk [3], EvClose 0] =
      Some (step exampleProps (EvClose 0) (step exampleProps (EvChunk [3]) s'))"
    by (simp add: s'_def s_def r_def start_defs handler_defs Let_def)
  note main = fatal_error_message [OF run en err ne, unfolded Let_def, folded s'_def]
  from main run' have "wire (step exampleProps (EvClose 0) (step exampleProps (EvChunk [3]) s')) = wire s"
    by blast
  with run' have after: "map_option wire (exec exampleProps s' [EvChunk [3], EvClose 0]) = Some (wire s)"
    by simp
  from main have shown: "status s' = ''x''" "\<not> mountRef s'" "predictions s' = predictions s"
    by blast+
  from shown(3) preds have none: "predictions s' = []"
    by simp
  from run err buf s'_def shown(1,2) none socks after show ?thesis
    by blast
qed

text \<open>
  C5 fails as stated: a message whose \<^verbatim>\<open>error\<close> field is present but the empty string
  is handled like any response. Its predictions are forwarded, no teardown runs, and the
  socket stays open.
\<close>

theorem empty_error_counterexample:
  "map_option (\<lambda>s. (mountRef s, sockets s, socketRef s, predictions s))
     (exec exampleProps mounted
        [EvOpen 0, EvMessage 0 (JsonValue \<lparr>predictions_field = Some [[(''Joy'', 8)]],
           warning_field = None, error_field = Some []\<rparr>)]) =
   Some (True, [OPEN], Some 0, [[(''Joy'', 8)]])"
  by (simp add: start_defs handler_defs)

subsection \<open>Flow control\<close>

lemma count_list_remove_nth:
  assumes "i < length xs"
  shows "count_list (map f (remove_nth i xs)) k + (if f (xs ! i) = k then 1 else 0)
         = count_list (map f xs) k"
proof -
  from assms have "xs = take i xs @ xs ! i # drop (Suc i) xs"
    by (rule id_take_nth_drop)
  then have "count_list (map f xs) k
      = count_list (map f (take i xs @ xs ! i # drop (Suc i) xs)) k"
    by simp
  then show ?thesis
    by (simp add: remove_nth_def)
qed

lemma flow_inv_updates [simp]:
  "flow_inv (recorders_update f1 s) = flow_inv s"
  "flow_inv (recorderRef_update f2 s) = flow_inv s"
  "flow_inv (stopped_update f3 s) = flow_inv s"
  "flow_inv (audioBufferRef_update f4 s) = flow_inv s"
  "flow_inv (numReconnects_update f5 s) = flow_inv s"
  "flow_inv (mountRef_update f6 s) = flow_inv s"
  "flow_inv (predictions_update f7 s) = flow_inv s"
  "flow_inv (statusLog_update f8 s) = flow_inv s"
  "flow_inv (timeline_update f9 s) = flow_inv s"
  "flow_inv (creating_update f10 s) = flow_inv s"
  "flow_inv (recording_update f11 s) = flow_inv s"
  "flow_inv (drained_update f15 s) = flow_inv s"
  "flow_inv (rejections_update f16 s) = flow_inv s"
  by (simp_all add: flow_inv_def sent_def answered_def pending_def)

lemma flow_inv_mounted: "flow_inv mounted"
  by (simp add: flow_inv_def sent_def answered_def pending_def start_defs handler_defs)

lemma flow_inv_setStatus [simp]: "flow_inv (setStatus m s) = flow_inv s"
  by (simp add: setStatus_def)

lemma flow_inv_loop_head [simp]: "flow_inv (loop_head s) = flow_inv s"
  by (simp add: loop_head_def split: option.splits)

text \<open>Changing the ready states of existing sockets, or forgetting the socket.\<close>

lemma flow_inv_sockets:
  assumes "flow_inv s" and "length xs = length (sockets s)"
  shows "flow_inv (s\<lparr>sockets := xs\<rparr>)" and "flow_inv (s\<lparr>sockets := xs, socketRef := None\<rparr>)"
  using assms by (simp_all add: flow_inv_def sent_def answered_def pending_def)

lemma flow_invI:
  assumes "\<And>sid. answered s sid \<le> sent s sid"
    and "\<And>sid. sent s sid + pending s sid \<le> Suc (answered s sid)"
    and "\<And>sid. length (sockets s) \<le> sid \<Longrightarrow> sent s sid = 0 \<and> pending s sid = 0"
    and "\<And>c. serverReadyRef s \<Longrightarrow> socketRef s = Some c \<Longrightarrow> sent s c + pending s c = answered s c"
  shows "flow_inv s"
  using assms unfolding flow_inv_def by blast

lemma flow_invD:
  assumes "flow_inv s"
  shows "answered s sid \<le> sent s sid"
    and "sent s sid + pending s sid \<le> Suc (answered s sid)"
    and "length (sockets s) \<le> sid \<Longrightarrow> sent s sid = 0 \<and> pending s sid = 0 \<and> answered s sid = 0"
    and "serverReadyRef s \<Longrightarrow> socketRef s = Some sid \<Longrightarrow> sent s sid + pending s sid = answered s sid"
proof -
  from assms show a: "answered s sid \<le> sent s sid"
    and "sent s sid + pending s sid \<le> Suc (answered s sid)"
    unfolding flow_inv_def by blast+
  from assms have "length (sockets s) \<le> sid \<Longrightarrow> sent s sid = 0 \<and> pending s sid = 0"
    unfolding flow_inv_def by blast
  with a show "length (sockets s) \<le> sid \<Longrightarrow> sent s sid = 0 \<and> pending s sid = 0 \<and> answered s sid = 0"
    by simp
  from assms show "serverReadyRef s \<Longrightarrow> socketRef s = Some sid \<Longrightarrow> sent s sid + pending s sid = answered s sid"
    unfolding flow_inv_def by blast
qed

lemma flow_inv_stopEverything [simp]: "flow_inv s \<Longrightarrow> flow_inv (stopEverything s)"
  by (auto simp: stopEverything_def socket_close_def Let_def flow_inv_def sent_def answered_def
      pending_def split: option.splits)

lemma flow_inv_idle: "flow_inv s \<Longrightarrow> serverReadyRef s \<Longrightarrow> idle s"
  by (simp add: idle_def flow_invD(4))

lemma flow_inv_sendRequest:
  assumes "flow_inv s" and "idle s"
  shows "flow_inv (sendRequest s)"
proof (cases "socketRef s")
  case None
  with assms show ?thesis by (simp add: sendRequest_def)
next
  case (Some c)
  show ?thesis
  proof (cases "readyStateOf s c = OPEN")
    case False
    with Some have "sendRequest s = s\<lparr>sockets := (sockets s)[c := closed_by_call (readyStateOf s c)]\<rparr>"
      by (simp add: sendRequest_def socket_close_def)
    with flow_inv_sockets(1) [OF assms(1), of "(sockets s)[c := closed_by_call (readyStateOf s c)]"]
    show ?thesis by simp
  next
    case True
    let ?s' = "s\<lparr>serverReadyRef := False, audioBufferRef := [],
        encoding := encoding s @ [(c, concat (audioBufferRef s))],
        drained := drained s @ [audioBufferRef s]\<rparr>"
    from True Some have eq: "sendRequest s = ?s'"
      by (simp add: sendRequest_def)
    from True have len: "c < length (sockets s)"
      by (simp add: readyStateOf_def split: if_splits)
    from assms(2) Some have idle: "sent s c + pending s c = answered s c"
      by (simp add: idle_def)
    have p: "pending ?s' k = pending s k + (if k = c then 1 else 0)" for k
      by (simp add: pending_def)
    have q: "sent ?s' k = sent s k" "answered ?s' k = answered s k" for k
      by (simp_all add: sent_def answered_def)
    have "flow_inv ?s'"
    proof (rule flow_invI)
      fix sid
      show "answered ?s' sid \<le> sent ?s' sid"
        using flow_invD(1) [OF assms(1), of sid] by (simp add: q)
      show "sent ?s' sid + pending ?s' sid \<le> Suc (answered ?s' sid)"
        using flow_invD(2) [OF assms(1), of sid] idle by (simp add: p q)
      show "sent ?s' sid = 0 \<and> pending ?s' sid = 0" if "length (sockets ?s') \<le> sid"
        using flow_invD(3) [OF assms(1), of sid] that len by (simp add: p q)
    qed simp
    with eq show ?thesis by simp
  qed
qed

lemma flow_inv_connect:
  assumes "flow_inv s"
  shows "flow_inv (connect s)"
proof -
  let ?s' = "connect s"
  have q: "sent ?s' k = sent s k" "answered ?s' k = answered s k" "pending ?s' k = pending s k" for k
    by (simp_all add: connect_def setStatus_def Let_def sent_def answered_def pending_def)
  have r: "socketRef ?s' = Some (length (sockets s))" "length (sockets ?s') = Suc (length (sockets s))"
    by (simp_all add: connect_def setStatus_def Let_def)
  show ?thesis
  proof (rule flow_invI)
    fix sid
    show "answered ?s' sid \<le> sent ?s' sid"
      using flow_invD(1) [OF assms, of sid] by (simp add: q)
    show "sent ?s' sid + pending ?s' sid \<le> Suc (answered ?s' sid)"
      using flow_invD(2) [OF assms, of sid] by (simp add: q)
    show "sent ?s' sid = 0 \<and> pending ?s' sid = 0" if "length (sockets ?s') \<le> sid"
      using flow_invD(3) [OF assms, of sid] that by (simp add: q r)
    show "sent ?s' sid + pending ?s' sid = answered ?s' sid" if "socketRef ?s' = Some sid"
      using flow_invD(3) [OF assms, of sid] that by (simp add: q r)
  qed
qed

lemma flow_inv_socketOnClose: "flow_inv s \<Longrightarrow> flow_inv (socketOnClose s)"
  by (simp add: socketOnClose_def flow_inv_connect)

lemma flow_inv_socketOnError: "flow_inv s \<Longrightarrow> flow_inv (socketOnError p s)"
  by (simp add: socketOnError_def)

lemma flow_inv_encoded:
  assumes "flow_inv s"
  shows "flow_inv (sendRequest_encoded p i s)"
proof (cases "i < length (encoding s)")
  case False
  with assms show ?thesis by (simp add: sendRequest_encoded_def)
next
  case True
  obtain c b where e: "encoding s ! i = (c, b)"
    by (cases "encoding s ! i")
  have cnt: "count_list (map fst (remove_nth i (encoding s))) k + (if c = k then 1 else 0)
      = pending s k" for k
    using count_list_remove_nth [OF True, of fst k] e by (simp add: pending_def)
  let ?s1 = "s\<lparr>encoding := remove_nth i (encoding s)\<rparr>"
  have p1: "pending ?s1 k + (if c = k then 1 else 0) = pending s k" for k
    using cnt [of k] by (simp add: pending_def)
  have q1: "sent ?s1 k = sent s k" "answered ?s1 k = answered s k" for k
    by (simp_all add: sent_def answered_def)
  have dropped: "flow_inv ?s1"
  proof (rule flow_invI)
    fix sid
    show "answered ?s1 sid \<le> sent ?s1 sid"
      using flow_invD(1) [OF assms, of sid] by (simp add: q1)
    show "sent ?s1 sid + pending ?s1 sid \<le> Suc (answered ?s1 sid)"
      using flow_invD(2) [OF assms, of sid] p1 [of sid] by (simp add: q1 split: if_splits)
    show "sent ?s1 sid = 0 \<and> pending ?s1 sid = 0" if "length (sockets ?s1) \<le> sid"
      using flow_invD(3) [OF assms, of sid] that p1 [of sid] by (simp add: q1 split: if_splits)
    show "sent ?s1 sid + pending ?s1 sid = answered ?s1 sid"
      if "serverReadyRef ?s1" "socketRef ?s1 = Some sid"
      using flow_invD(4) [OF assms, of sid] flow_invD(1) [OF assms, of sid] that p1 [of sid]
      by (simp add: q1 split: if_splits)
  qed
  define s2 where "s2 = ?s1\<lparr>wire := wire ?s1 @ [(c, request p b)]\<rparr>"
  have p2: "pending s2 k = pending ?s1 k" "answered s2 k = answered s k"
    "sent s2 k = sent s k + (if k = c then 1 else 0)" for k
    by (simp_all add: s2_def sent_def answered_def pending_def)
  have r2: "sockets s2 = sockets s" "serverReadyRef s2 = serverReadyRef s" "socketRef s2 = socketRef s"
    by (simp_all add: s2_def)
  have transmitted: "flow_inv s2"
  proof (rule flow_invI)
    fix sid
    show "answered s2 sid \<le> sent s2 sid"
      using flow_invD(1) [OF assms, of sid] by (simp add: p2)
    show "sent s2 sid + pending s2 sid \<le> Suc (answered s2 sid)"
      using flow_invD(2) [OF assms, of sid] p1 [of sid] by (simp add: p2 split: if_splits)
    show "sent s2 sid = 0 \<and> pending s2 sid = 0" if "length (sockets s2) \<le> sid"
      using flow_invD(3) [OF assms, of sid] that p1 [of sid] by (simp add: p2 r2 split: if_splits)
    show "sent s2 sid + pending s2 sid = answered s2 sid"
      if "serverReadyRef s2" "socketRef s2 = Some sid"
      using flow_invD(4) [OF assms, of sid] that p1 [of sid]
      by (simp add: p2 r2 split: if_splits)
  qed
  have "sendRequest_encoded p i s = socket_send c (request p b) ?s1"
    using True e by (simp add: sendRequest_encoded_def)
  with dropped transmitted show ?thesis
    by (simp add: s2_def socket_send_def readyStateOf_def split: readyState.splits)
qed

lemma idle_updates [simp]:
  "idle (recorders_update f1 s) = idle s"
  "idle (recorderRef_update f2 s) = idle s"
  "idle (stopped_update f3 s) = idle s"
  "idle (audioBufferRef_update f4 s) = idle s"
  "idle (numReconnects_update f5 s) = idle s"
  "idle (mountRef_update f6 s) = idle s"
  "idle (predictions_update f7 s) = idle s"
  "idle (statusLog_update f8 s) = idle s"
  "idle (timeline_update f9 s) = idle s"
  "idle (creating_update f10 s) = idle s"
  "idle (recording_update f11 s) = idle s"
  "idle (drained_update f15 s) = idle s"
  "idle (rejections_update f16 s) = idle s"
  "idle (serverReadyRef_update f17 s) = idle s"
  "idle (sockets_update f18 s) = idle s"
  by (simp_all add: idle_def sent_def answered_def pending_def)

lemma idle_setStatus [simp]: "idle (setStatus m s) = idle s"
  by (simp add: setStatus_def)

lemma flow_inv_ready:
  assumes "flow_inv s" and "idle s"
  shows "flow_inv (s\<lparr>serverReadyRef := True\<rparr>)"
  using assms by (simp add: flow_inv_def idle_def sent_def answered_def pending_def)

lemma flow_inv_received:
  assumes "flow_inv s" and "0 < inFlight s sid" and "socketRef s = Some sid"
  shows "flow_inv (s\<lparr>received := received s @ [sid]\<rparr>) \<and> idle (s\<lparr>received := received s @ [sid]\<rparr>)"
proof -
  define s1 where "s1 = s\<lparr>received := received s @ [sid]\<rparr>"
  have q: "answered s1 k = answered s k + (if k = sid then 1 else 0)"
    "sent s1 k = sent s k" "pending s1 k = pending s k" for k
    by (simp_all add: s1_def sent_def answered_def pending_def)
  have r: "sockets s1 = sockets s" "socketRef s1 = Some sid"
    using assms(3) by (simp_all add: s1_def)
  from assms(2) have less: "answered s sid < sent s sid"
    by (simp add: inFlight_def)
  with flow_invD(2) [OF assms(1), of sid]
  have exact: "sent s sid = Suc (answered s sid)" "pending s sid = 0"
    by simp_all
  have "flow_inv s1"
  proof (rule flow_invI)
    fix k
    show "answered s1 k \<le> sent s1 k"
      using flow_invD(1) [OF assms(1), of k] less by (simp add: q)
    show "sent s1 k + pending s1 k \<le> Suc (answered s1 k)"
      using flow_invD(2) [OF assms(1), of k] by (simp add: q)
    show "sent s1 k = 0 \<and> pending s1 k = 0" if "length (sockets s1) \<le> k"
      using flow_invD(3) [OF assms(1), of k] that by (simp add: q r)
    show "sent s1 k + pending s1 k = answered s1 k" if "socketRef s1 = Some k"
      using that exact by (simp add: q r)
  qed
  moreover have "idle s1"
    using exact by (simp add: idle_def q r)
  ultimately show ?thesis
    by (simp add: s1_def)
qed

lemma flow_inv_socketOnMessage:
  assumes "flow_inv s" and "idle s"
  shows "flow_inv (reject (socketOnMessage p m s))"
proof (cases m)
  case Unparseable
  with assms show ?thesis by (simp add: socketOnMessage_def reject_def Let_def)
next
  case JsonNull
  with assms show ?thesis by (simp add: socketOnMessage_def reject_def Let_def)
next
  case (JsonValue r)
  with assms show ?thesis
    by (simp add: socketOnMessage_def reject_def Let_def flow_inv_sendRequest flow_inv_ready
        split: option.splits)
qed

lemma flow_inv_step:
  assumes "sockets_inv s" and "flow_inv s" and "enabled s e" and "solicited s e"
  shows "flow_inv (step p e s)"
proof (cases e)
  case (EvOpen sid)
  with assms(2) flow_inv_sockets(1) [OF assms(2), of "(sockets s)[sid := OPEN]"] show ?thesis
    by (simp add: socketOnOpen_def)
next
  case (EvMessage sid m)
  with assms(1,3) have "socketRef s = Some sid"
    by (auto intro: current_if_live)
  with assms(2,4) EvMessage flow_inv_received [of s sid] show ?thesis
    by (simp add: flow_inv_socketOnMessage)
next
  case (EvClose sid)
  with flow_inv_sockets(1) [OF assms(2), of "(sockets s)[sid := CLOSED]"] show ?thesis
    by (simp add: flow_inv_socketOnClose)
next
  case (EvFail sid)
  with flow_inv_sockets(1) [OF assms(2), of "(sockets s)[sid := CLOSED]"] show ?thesis
    by (simp add: flow_inv_socketOnClose flow_inv_socketOnError)
next
  case EvCreated
  with assms(2) show ?thesis
    by (simp add: socketOnOpen_created_def)
next
  case (EvChunk b)
  let ?s1 = "s\<lparr>recording := recording s - 1, audioBufferRef := audioBufferRef s @ [b]\<rparr>"
  have "flow_inv ?s1" using assms(2) by simp
  moreover have "idle ?s1" if "serverReadyRef s"
    using flow_inv_idle [OF assms(2) that] by simp
  ultimately show ?thesis
    using EvChunk by (simp add: socketOnOpen_recorded_def Let_def flow_inv_sendRequest)
next
  case (EvEncoded i)
  with assms(2) show ?thesis
    by (simp add: flow_inv_encoded)
next
  case EvUnmount
  with assms(2) show ?thesis by simp
qed

lemma flow_inv_exec:
  assumes "exec p s evs = Some s'" and "responses_only p s evs"
    and "sockets_inv s" and "flow_inv s"
  shows "flow_inv s'"
  using assms
proof (induction evs arbitrary: s)
  case Nil
  then show ?case by simp
next
  case (Cons e es)
  from Cons.prems(1) have en: "enabled s e" and run: "exec p (step p e s) es = Some s'"
    by (simp_all split: if_splits)
  from Cons.prems(2) have sol: "solicited s e" and rest: "responses_only p (step p e s) es"
    by simp_all
  from Cons.IH [OF run rest sockets_inv_step [OF Cons.prems(3) en]
      flow_inv_step [OF Cons.prems(3,4) en sol]]
  show ?case .
qed

lemma flag_frame:
  "serverReadyRef (setStatus m s) = serverReadyRef s" "encoding (setStatus m s) = encoding s"
  "serverReadyRef (loop_head s) = serverReadyRef s" "encoding (loop_head s) = encoding s"
  "serverReadyRef (stopEverything s) = serverReadyRef s" "encoding (stopEverything s) = encoding s"
  "serverReadyRef (socketOnError p s) = serverReadyRef s" "encoding (socketOnError p s) = encoding s"
  "serverReadyRef (socketOnClose s) = (mountRef s \<or> serverReadyRef s)"
  "encoding (socketOnClose s) = encoding s"
  "serverReadyRef (sendRequest_encoded p i s) = serverReadyRef s"
  "length (encoding (sendRequest_encoded p i s)) \<le> length (encoding s)"
  by (simp_all add: setStatus_def loop_head_def stopEverything_def socket_close_def
      socketOnError_def socketOnClose_def connect_def sendRequest_encoded_def socket_send_def
      remove_nth_def Let_def split: option.splits prod.splits readyState.splits)

lemma mountRef_socketOnError: "mountRef (socketOnError p s) \<Longrightarrow> mountRef s"
  by (simp add: socketOnError_def stopEverything_effect split: if_splits)

lemma flag_sendRequest:
  "serverReadyRef (sendRequest s) = (serverReadyRef s \<and> \<not> sessionOpen s)"
  "length (encoding (sendRequest s))
     = (if sessionOpen s then Suc (length (encoding s)) else length (encoding s))"
  by (simp_all add: sendRequest_def socket_close_def sessionOpen_def split: option.splits)

lemma send_issued:
  assumes "length (encoding s) < length (encoding (step p e s))"
  shows "\<not> serverReadyRef (step p e s) \<and> (is_message e \<or> (is_chunk e \<and> serverReadyRef s))"
proof (cases e)
  case (EvMessage sid m)
  with assms show ?thesis
    by (cases m)
      (simp_all add: socketOnMessage_def reject_def Let_def flag_frame flag_sendRequest
        split: option.splits if_splits)
next
  case (EvChunk b)
  with assms show ?thesis
    by (simp add: socketOnOpen_recorded_def Let_def flag_frame flag_sendRequest
        split: if_splits)
next
  case (EvEncoded i)
  with assms flag_frame(12) [of p i s] show ?thesis by simp
qed (use assms in \<open>simp_all add: socketOnOpen_def socketOnOpen_created_def flag_frame\<close>)

lemma ready_again:
  assumes "\<not> serverReadyRef s" and "serverReadyRef (step p e s)"
  shows "is_message e \<or> (is_closing e \<and> mountRef s)"
proof (cases e)
  case (EvFail sid)
  with assms mountRef_socketOnError [of p "s\<lparr>sockets := (sockets s)[sid := CLOSED]\<rparr>"]
  show ?thesis
    by (auto simp: flag_frame)
next
  case (EvChunk b)
  with assms show ?thesis
    by (simp add: socketOnOpen_recorded_def Let_def flag_frame flag_sendRequest
        split: if_splits)
qed (use assms in \<open>simp_all add: socketOnOpen_def socketOnOpen_created_def flag_frame\<close>)

text \<open>
  C1, as the code has it. With a server that only answers, every socket has at most one
  request being encoded or in flight, in every reachable state, and only the socket in
  \<^verbatim>\<open>socketRef\<close> can be connecting or open. A request is started only by a message or by
  a blob that finds the server ready, and starting it clears \<^verbatim>\<open>serverReadyRef\<close>; the flag
  becomes true again only in the handler of a message or, on a close event of a mounted
  component, in \<^verbatim>\<open>connect\<close>, for a new socket.
\<close>

theorem one_request_per_socket:
  assumes "exec p mounted evs = Some s" and "responses_only p mounted evs"
  shows "(\<forall>sid. inFlight s sid + pending s sid \<le> 1) \<and>
         (\<forall>sid < length (sockets s). sockets s ! sid = OPEN \<or> sockets s ! sid = CONNECTING
            \<longrightarrow> socketRef s = Some sid) \<and>
         (\<forall>e. length (encoding s) < length (encoding (step p e s)) \<longrightarrow>
            \<not> serverReadyRef (step p e s) \<and> (is_message e \<or> (is_chunk e \<and> serverReadyRef s))) \<and>
         (\<forall>e. \<not> serverReadyRef s \<and> serverReadyRef (step p e s) \<longrightarrow>
            is_message e \<or> (is_closing e \<and> mountRef s))"
proof -
  note socks = sockets_inv_reachable [OF assms(1)]
  note flow = flow_inv_exec [OF assms sockets_inv_mounted flow_inv_mounted]
  have "inFlight s sid + pending s sid \<le> 1" for sid
    using flow_invD(1,2) [OF flow, of sid] by (simp add: inFlight_def)
  moreover have "socketRef s = Some sid"
    if "sid < length (sockets s)" "sockets s ! sid = OPEN \<or> sockets s ! sid = CONNECTING" for sid
    using that by (auto intro: current_if_live [OF socks])
  ultimately show ?thesis
    using send_issued [of s p] ready_again [of s p] by blast
qed

theorem one_request_per_socket_witness:
  "responses_only exampleProps mounted
     [EvOpen 0, EvCreated, EvChunk [1, 2], EvChunk [3], EvEncoded 0, EvMessage 0 (answer []),
      EvEncoded 0] \<and>
   (\<exists>s. exec exampleProps mounted
      [EvOpen 0, EvCreated, EvChunk [1, 2], EvChunk [3], EvEncoded 0, EvMessage 0 (answer []),
       EvEncoded 0] = Some s \<and>
      sent s 0 = 2 \<and> answered s 0 = 1 \<and> inFlight s 0 + pending s 0 \<le> 1)"
proof -
  let ?evs = "[EvOpen 0, EvCreated, EvChunk [1, 2], EvChunk [3], EvEncoded 0,
    EvMessage 0 (answer []), EvEncoded 0]"
  have "map_option (\<lambda>s. (sent s 0, answered s 0)) (exec exampleProps mounted ?evs) = Some (2, 1)"
    by code_simp
  then obtain s where run: "exec exampleProps mounted ?evs = Some s"
    and counts: "sent s 0 = 2" "answered s 0 = 1"
    by auto
  have only: "responses_only exampleProps mounted ?evs"
    by code_simp
  note counts
  moreover from one_request_per_socket [OF run only] have "inFlight s 0 + pending s 0 \<le> 1"
    by blast
  ultimately show ?thesis
    using run only by blast
qed

text \<open>
  C1 fails as stated: a request is transmitted on the first socket and never answered;
  the socket closes, \<^verbatim>\<open>connect\<close> sets \<^verbatim>\<open>serverReadyRef\<close> with no message handled, and on
  the second socket a second request is transmitted. Two requests were sent and none
  was answered, with a server that sent nothing at all.
\<close>

theorem one_in_flight_counterexample:
  "responses_only exampleProps mounted
     [EvOpen 0, EvCreated, EvChunk [1], EvEncoded 0, EvClose 0, EvOpen 1, EvChunk [2], EvEncoded 0] \<and>
   map_option (\<lambda>s. (serverReadyRef s, map fst (wire s), received s))
     (exec exampleProps mounted [EvOpen 0, EvCreated, EvChunk [1], EvEncoded 0])
     = Some (False, [0], []) \<and>
   map_option (\<lambda>s. (serverReadyRef s, map fst (wire s), received s))
     (exec exampleProps mounted [EvOpen 0, EvCreated, EvChunk [1], EvEncoded 0, EvClose 0])
     = Some (True, [0], []) \<and>
   map_option (\<lambda>s. (map fst (wire s), received s))
     (exec exampleProps mounted
        [EvOpen 0, EvCreated, EvChunk [1], EvEncoded 0, EvClose 0, EvOpen 1, EvChunk [2], EvEncoded 0])
     = Some ([0, 1], [])"
  by code_simp

subsection \<open>Where the blobs go\<close>

lemma mset_remove_nth:
  assumes "i < length xs"
  shows "mset (map f (remove_nth i xs)) + {#f (xs ! i)#} = mset (map f xs)"
proof -
  from assms have "xs = take i xs @ xs ! i # drop (Suc i) xs"
    by (rule id_take_nth_drop)
  then have "mset (map f xs) = mset (map f (take i xs @ xs ! i # drop (Suc i) xs))"
    by simp
  then show ?thesis
    by (simp add: remove_nth_def)
qed

lemma accounted_sendRequest:
  "concat (drained (sendRequest s)) @ audioBufferRef (sendRequest s)
   = concat (drained s) @ audioBufferRef s"
  by (simp add: sendRequest_def socket_close_def split: option.splits)

lemma accounted_frame:
  "drained (loop_head s) = drained s" "audioBufferRef (loop_head s) = audioBufferRef s"
  "drained (stopEverything s) = drained s" "audioBufferRef (stopEverything s) = audioBufferRef s"
  "drained (setStatus m s) = drained s" "audioBufferRef (setStatus m s) = audioBufferRef s"
  "drained (connect s) = drained s" "audioBufferRef (connect s) = audioBufferRef s"
  "drained (socketOnClose s) = drained s" "audioBufferRef (socketOnClose s) = audioBufferRef s"
  "drained (socketOnError p s) = drained s" "audioBufferRef (socketOnError p s) = audioBufferRef s"
  "drained (sendRequest_encoded p i s) = drained s"
  "audioBufferRef (sendRequest_encoded p i s) = audioBufferRef s"
  by (simp_all add: loop_head_def stopEverything_def socket_close_def setStatus_def connect_def
      socketOnClose_def socketOnError_def sendRequest_encoded_def socket_send_def Let_def
      split: option.splits prod.splits readyState.splits)

lemma accounted_step:
  "concat (drained (step p e s)) @ audioBufferRef (step p e s)
   = concat (drained s) @ audioBufferRef s @ chunks [e]"
proof (cases e)
  case (EvMessage sid m)
  then show ?thesis
    by (cases m)
      (simp_all add: socketOnMessage_def reject_def Let_def accounted_frame accounted_sendRequest
        split: option.splits)
next
  case (EvChunk b)
  then show ?thesis
    using accounted_sendRequest
      [of "s\<lparr>recording := recording s - 1, audioBufferRef := audioBufferRef s @ [b]\<rparr>"]
    by (simp add: socketOnOpen_recorded_def Let_def accounted_frame)
qed (simp_all add: socketOnOpen_def socketOnOpen_created_def accounted_frame)

lemma accounted_exec:
  assumes "exec p s evs = Some s'"
  shows "concat (drained s') @ audioBufferRef s' = concat (drained s) @ audioBufferRef s @ chunks evs"
  using assms
proof (induction evs arbitrary: s)
  case Nil
  then show ?case by simp
next
  case (Cons e es)
  from Cons.prems have run: "exec p (step p e s) es = Some s'"
    by (simp split: if_splits)
  from Cons.IH [OF run] accounted_step [of p e s] show ?case
    by (simp add: chunks_Cons [of e es])
qed

lemma requested_updates [simp]:
  "requested p (sockets_update g0 s) = requested p s"
  "requested p (socketRef_update g1 s) = requested p s"
  "requested p (recorders_update f1 s) = requested p s"
  "requested p (recorderRef_update f2 s) = requested p s"
  "requested p (stopped_update f3 s) = requested p s"
  "requested p (audioBufferRef_update f4 s) = requested p s"
  "requested p (numReconnects_update f5 s) = requested p s"
  "requested p (mountRef_update f6 s) = requested p s"
  "requested p (predictions_update f7 s) = requested p s"
  "requested p (statusLog_update f8 s) = requested p s"
  "requested p (timeline_update f9 s) = requested p s"
  "requested p (creating_update f10 s) = requested p s"
  "requested p (recording_update f11 s) = requested p s"
  "requested p (drained_update f15 s) = requested p s"
  "requested p (rejections_update f16 s) = requested p s"
  "requested p (serverReadyRef_update f17 s) = requested p s"
  "requested p (received_update f18 s) = requested p s"
  by (simp_all add: requested_def)

lemma batches_updates [simp]:
  "batches p (sockets_update g0 s) = batches p s"
  "batches p (socketRef_update g1 s) = batches p s"
  "batches p (recorders_update f1 s) = batches p s"
  "batches p (recorderRef_update f2 s) = batches p s"
  "batches p (stopped_update f3 s) = batches p s"
  "batches p (audioBufferRef_update f4 s) = batches p s"
  "batches p (numReconnects_update f5 s) = batches p s"
  "batches p (mountRef_update f6 s) = batches p s"
  "batches p (predictions_update f7 s) = batches p s"
  "batches p (statusLog_update f8 s) = batches p s"
  "batches p (timeline_update f9 s) = batches p s"
  "batches p (creating_update f10 s) = batches p s"
  "batches p (recording_update f11 s) = batches p s"
  "batches p (encoding_update f12 s) = batches p s"
  "batches p (wire_update f13 s) = batches p s"
  "batches p (rejections_update f16 s) = batches p s"
  "batches p (serverReadyRef_update f17 s) = batches p s"
  "batches p (received_update f18 s) = batches p s"
  by (simp_all add: batches_def)

lemma requested_frame:
  assumes "wire s' = wire s" and "encoding s' = encoding s"
  shows "requested p s' = requested p s"
  using assms by (simp add: requested_def)

lemma batches_frame:
  assumes "drained s' = drained s"
  shows "batches p s' = batches p s"
  using assms by (simp add: batches_def)

lemma traced_sendRequest:
  assumes "requested p s \<subseteq># batches p s"
  shows "requested p (sendRequest s) \<subseteq># batches p (sendRequest s)"
  using assms
  by (auto simp: sendRequest_def socket_close_def requested_def batches_def split: option.splits)

lemma traced_loop_head [simp]:
  "requested p (loop_head s) = requested p s" "batches p (loop_head s) = batches p s"
  by (simp_all add: loop_head_def split: option.splits)

lemma traced_stopEverything [simp]:
  "requested p (stopEverything s) = requested p s" "batches p (stopEverything s) = batches p s"
  by (simp_all add: stopEverything_def socket_close_def Let_def split: option.splits)

lemma traced_setStatus [simp]:
  "requested p (setStatus m s) = requested p s" "batches p (setStatus m s) = batches p s"
  by (simp_all add: setStatus_def)

lemma traced_encoded:
  assumes "requested p s \<subseteq># batches p s"
  shows "requested p (sendRequest_encoded p i s) \<subseteq># batches p (sendRequest_encoded p i s)"
proof (cases "i < length (encoding s)")
  case False
  with assms show ?thesis by (simp add: sendRequest_encoded_def)
next
  case True
  obtain c b where e: "encoding s ! i = (c, b)"
    by (cases "encoding s ! i")
  define s1 where "s1 = s\<lparr>encoding := remove_nth i (encoding s)\<rparr>"
  have r: "requested p s1 + {#request p b#} = requested p s"
    using mset_remove_nth [OF True, of "\<lambda>e. request p (snd e)"] e
    by (simp add: s1_def requested_def)
  have eq: "sendRequest_encoded p i s = socket_send c (request p b) s1"
    using True e by (simp add: sendRequest_encoded_def s1_def)
  have b: "batches p (socket_send c (request p b) s1) = batches p s"
    by (simp add: socket_send_def s1_def split: readyState.splits)
  have sub: "requested p s1 \<subseteq># requested p s"
    by (metis r mset_subset_eq_add_left)
  have sent: "requested p (s1\<lparr>wire := wire s1 @ [(c, request p b)]\<rparr>) = requested p s"
    using r by (simp add: requested_def)
  have "requested p (socket_send c (request p b) s1) \<subseteq># requested p s"
    using sub sent by (cases "readyStateOf s1 c") (simp_all add: socket_send_def)
  with assms b eq show ?thesis
    by (auto intro: subset_mset.order_trans)
qed

lemma traced_step:
  assumes "requested p s \<subseteq># batches p s"
  shows "requested p (step p e s) \<subseteq># batches p (step p e s)"
proof (cases e)
  case (EvOpen sid)
  with assms show ?thesis by (simp add: socketOnOpen_def)
next
  case (EvMessage sid m)
  with assms show ?thesis
    by (cases m)
      (simp_all add: socketOnMessage_def reject_def Let_def traced_sendRequest split: option.splits)
next
  case (EvClose sid)
  with assms show ?thesis
    by (simp add: socketOnClose_def connect_def Let_def)
next
  case (EvFail sid)
  with assms show ?thesis
    by (simp add: socketOnClose_def socketOnError_def connect_def Let_def)
next
  case EvCreated
  with assms show ?thesis by (simp add: socketOnOpen_created_def)
next
  case (EvChunk b)
  with assms show ?thesis
    by (simp add: socketOnOpen_recorded_def Let_def traced_sendRequest)
next
  case (EvEncoded i)
  with assms show ?thesis by (simp add: traced_encoded)
next
  case EvUnmount
  with assms show ?thesis by simp
qed

lemma traced_exec:
  assumes "exec p s evs = Some s'" and "requested p s \<subseteq># batches p s"
  shows "requested p s' \<subseteq># batches p s'"
  using assms
proof (induction evs arbitrary: s)
  case Nil
  then show ?case by simp
next
  case (Cons e es)
  from Cons.prems(1) have run: "exec p (step p e s) es = Some s'"
    by (simp split: if_splits)
  from Cons.IH [OF run traced_step [OF Cons.prems(2)]] show ?case .
qed

lemma busy_chunk:
  assumes "\<not> serverReadyRef s"
  shows "wire (step p (EvChunk b) s) = wire s \<and> encoding (step p (EvChunk b) s) = encoding s \<and>
         drained (step p (EvChunk b) s) = drained s \<and>
         audioBufferRef (step p (EvChunk b) s) = audioBufferRef s @ [b] \<and>
         sockets (step p (EvChunk b) s) = sockets s \<and>
         socketRef (step p (EvChunk b) s) = socketRef s \<and>
         \<not> serverReadyRef (step p (EvChunk b) s)"
  using assms by (simp add: socketOnOpen_recorded_def loop_head_def Let_def split: option.splits)

lemma busy_chunks:
  assumes "exec p s (map EvChunk bs) = Some s1" and "\<not> serverReadyRef s"
  shows "wire s1 = wire s \<and> encoding s1 = encoding s \<and> drained s1 = drained s \<and>
         audioBufferRef s1 = audioBufferRef s @ bs \<and> sockets s1 = sockets s \<and>
         socketRef s1 = socketRef s \<and> \<not> serverReadyRef s1"
  using assms
proof (induction bs arbitrary: s)
  case Nil
  then show ?case by simp
next
  case (Cons b bs)
  from Cons.prems(1) have run: "exec p (step p (EvChunk b) s) (map EvChunk bs) = Some s1"
    by (simp split: if_splits)
  note one = busy_chunk [OF Cons.prems(2), of p b]
  from one have "\<not> serverReadyRef (step p (EvChunk b) s)" by simp
  from Cons.IH [OF run this] one show ?case by simp
qed

lemma answer_sends_queue:
  assumes "socketRef s = Some sid" and "sid < length (sockets s)" and "sockets s ! sid = OPEN"
    and "audioBufferRef s \<noteq> []" and "truthy (error_field r) = None"
  shows "audioBufferRef (step p (EvMessage sid (JsonValue r)) s) = [] \<and>
         encoding (step p (EvMessage sid (JsonValue r)) s)
           = encoding s @ [(sid, concat (audioBufferRef s))] \<and>
         drained (step p (EvMessage sid (JsonValue r)) s) = drained s @ [audioBufferRef s] \<and>
         wire (step p (EvMessage sid (JsonValue r)) s) = wire s \<and>
         sockets (step p (EvMessage sid (JsonValue r)) s) = sockets s \<and>
         \<not> serverReadyRef (step p (EvMessage sid (JsonValue r)) s)"
  using assms
  by (simp add: socketOnMessage_def reject_def Let_def setStatus_def sendRequest_def
      readyStateOf_def)

lemma encoded_transmits:
  assumes "encoding s = es @ [(sid, b)]" and "sid < length (sockets s)" and "sockets s ! sid = OPEN"
  shows "wire (step p (EvEncoded (length es)) s) = wire s @ [(sid, request p b)] \<and>
         encoding (step p (EvEncoded (length es)) s) = es"
  using assms
  by (simp add: sendRequest_encoded_def socket_send_def readyStateOf_def remove_nth_def)

text \<open>
  C2. While \<^verbatim>\<open>serverReadyRef\<close> is false (a request was started and not answered), the
  blobs that arrive are only pushed on the buffer: no request is built or transmitted for
  any of them. The next answer starts one request with the whole buffer, which is then
  empty, and the message that request transmits, once encoded, has as its \<^verbatim>\<open>data\<close> the
  base64 encoding of the concatenation of the queued blobs in their order of arrival,
  with the model's name and the stream window of the props.
\<close>

theorem queued_chunks_coalesced:
  assumes "socketRef s = Some sid" and "sid < length (sockets s)" and "sockets s ! sid = OPEN"
    and "\<not> serverReadyRef s" and "audioBufferRef s = []" and "bs \<noteq> []"
    and "truthy (error_field r) = None"
    and "exec p s (map EvChunk bs) = Some s1"
  shows "wire s1 = wire s \<and> encoding s1 = encoding s \<and> audioBufferRef s1 = bs \<and>
         enabled s1 (EvMessage sid (JsonValue r)) \<and>
         (let s2 = step p (EvMessage sid (JsonValue r)) s1 in
            audioBufferRef s2 = [] \<and> encoding s2 = encoding s @ [(sid, concat bs)] \<and>
            wire s2 = wire s \<and> enabled s2 (EvEncoded (length (encoding s))) \<and>
            wire (step p (EvEncoded (length (encoding s))) s2)
              = wire s @ [(sid, \<lparr>payload = blobToBase64 p (concat bs), models = modelName p,
                                  stream_window_ms = streamWindowLengthMs p\<rparr>)])"
proof -
  note queued = busy_chunks [OF assms(8,4)]
  from queued assms(1-3,5)
  have s1: "socketRef s1 = Some sid" "sid < length (sockets s1)" "sockets s1 ! sid = OPEN"
    "audioBufferRef s1 = bs"
    by simp_all
  define s2 where "s2 = step p (EvMessage sid (JsonValue r)) s1"
  from answer_sends_queue [OF s1(1-3) _ assms(7), of p] s1(4) assms(6) queued
  have s2: "audioBufferRef s2 = []" "encoding s2 = encoding s @ [(sid, concat bs)]"
    "wire s2 = wire s" "sockets s2 = sockets s"
    by (simp_all add: s2_def)
  from encoded_transmits [OF s2(2), of p] s2(3,4) assms(2,3)
  have "wire (step p (EvEncoded (length (encoding s))) s2)
      = wire s @ [(sid, \<lparr>payload = blobToBase64 p (concat bs), models = modelName p,
                          stream_window_ms = streamWindowLengthMs p\<rparr>)]"
    by (simp add: request_def)
  with queued s1 s2 show ?thesis
    unfolding Let_def s2_def [symmetric] by simp
qed

theorem queued_chunks_coalesced_witness:
  "\<exists>s s1. exec exampleProps mounted [EvOpen 0, EvCreated, EvChunk [1, 2]] = Some s \<and>
     \<not> serverReadyRef s \<and> audioBufferRef s = [] \<and> encoding s = [(0, [1, 2])] \<and>
     exec exampleProps s (map EvChunk [[3], [4, 5], [6]]) = Some s1 \<and>
     audioBufferRef s1 = [[3], [4, 5], [6]] \<and> encoding s1 = [(0, [1, 2])] \<and> wire s1 = [] \<and>
     encoding (step exampleProps (EvMessage 0 (answer [])) s1) = [(0, [1, 2]), (0, [3, 4, 5, 6])] \<and>
     wire (step exampleProps (EvEncoded 1) (step exampleProps (EvMessage 0 (answer [])) s1))
       = [(0, \<lparr>payload = map char_of [3, 4, 5, 6 :: nat], models = ''prosody'',
               stream_window_ms = 5000\<rparr>)]"
proof -
  define s where "s = step exampleProps (EvChunk [1, 2])
    (step exampleProps EvCreated (step exampleProps (EvOpen 0) mounted))"
  define s1 where "s1 = step exampleProps (EvChunk [6]) (step exampleProps (EvChunk [4, 5])
    (step exampleProps (EvChunk [3]) s))"
  define r where "r = \<lparr>predictions_field = Some [], warning_field = None, error_field = None\<rparr>"
  have run: "exec exampleProps mounted [EvOpen 0, EvCreated, EvChunk [1, 2]] = Some s"
    unfolding s_def by code_simp
  have pre: "socketRef s = Some 0" "0 < length (sockets s)" "sockets s ! 0 = OPEN"
    "\<not> serverReadyRef s" "audioBufferRef s = []" "encoding s = [(0, [1, 2])]" "wire s = []"
    unfolding s_def by code_simp+
  have run1: "exec exampleProps s (map EvChunk [[3], [4, 5], [6]]) = Some s1"
    unfolding s1_def s_def by code_simp
  have ok: "truthy (error_field r) = None" and ne: "[[3], [4, 5], [6]] \<noteq> ([] :: blob list)"
    by (simp_all add: r_def truthy_def)
  have ans: "answer [] = JsonValue r"
    by (simp add: answer_def r_def)
  note main = queued_chunks_coalesced [OF pre(1-5) ne ok run1, unfolded Let_def, folded ans]
  from main pre(6,7) have
    "audioBufferRef s1 = [[3], [4, 5], [6]]" "encoding s1 = [(0, [1, 2])]" "wire s1 = []"
    "encoding (step exampleProps (EvMessage 0 (answer [])) s1) = [(0, [1, 2]), (0, [3, 4, 5, 6])]"
    "wire (step exampleProps (EvEncoded 1) (step exampleProps (EvMessage 0 (answer [])) s1))
       = [(0, \<lparr>payload = map char_of [3, 4, 5, 6 :: nat], models = ''prosody'',
               stream_window_ms = 5000\<rparr>)]"
    by (simp_all add: exampleProps_def prosodyWidgets_def)
  with run pre(4,5,6) run1 show ?thesis
    by blast
qed

text \<open>
  C10. Every blob the recorder returned is in exactly one place: in one of the arrays
  \<^verbatim>\<open>sendRequest\<close> took out of the buffer, or still in the buffer, in the order of arrival.
  Every request that was transmitted or is being encoded is the request of one of those
  arrays, each array counted once. \<^verbatim>\<open>sendRequest\<close> on an open session empties the
  buffer and clears \<^verbatim>\<open>serverReadyRef\<close> before it suspends for the encoding; a blob that
  arrives while the flag is false is appended to the new buffer; and the end of an
  encoding touches neither the buffer nor the arrays taken.
\<close>

theorem each_blob_in_one_request:
  assumes "exec p mounted evs = Some s"
  shows "concat (drained s) @ audioBufferRef s = chunks evs \<and>
         requested p s \<subseteq># batches p s \<and>
         (\<forall>sid. socketRef s = Some sid \<and> readyStateOf s sid = OPEN \<longrightarrow>
            audioBufferRef (sendRequest s) = [] \<and> \<not> serverReadyRef (sendRequest s) \<and>
            drained (sendRequest s) = drained s @ [audioBufferRef s] \<and>
            encoding (sendRequest s) = encoding s @ [(sid, concat (audioBufferRef s))] \<and>
            wire (sendRequest s) = wire s) \<and>
         (\<not> serverReadyRef s \<longrightarrow>
            audioBufferRef (step p (EvChunk b) s) = audioBufferRef s @ [b] \<and>
            drained (step p (EvChunk b) s) = drained s \<and>
            encoding (step p (EvChunk b) s) = encoding s) \<and>
         audioBufferRef (step p (EvEncoded i) s) = audioBufferRef s \<and>
         drained (step p (EvEncoded i) s) = drained s"
proof -
  have "concat (drained s) @ audioBufferRef s = chunks evs"
    using accounted_exec [OF assms] by (simp add: start_defs handler_defs)
  moreover have "requested p s \<subseteq># batches p s"
    by (rule traced_exec [OF assms]) (simp add: requested_def batches_def start_defs handler_defs)
  moreover have "audioBufferRef (sendRequest s) = [] \<and> \<not> serverReadyRef (sendRequest s) \<and>
      drained (sendRequest s) = drained s @ [audioBufferRef s] \<and>
      encoding (sendRequest s) = encoding s @ [(sid, concat (audioBufferRef s))] \<and>
      wire (sendRequest s) = wire s"
    if "socketRef s = Some sid \<and> readyStateOf s sid = OPEN" for sid
    using that by (simp add: sendRequest_def)
  moreover have "audioBufferRef (step p (EvEncoded i) s) = audioBufferRef s \<and>
      drained (step p (EvEncoded i) s) = drained s"
    by (simp add: accounted_frame)
  ultimately show ?thesis
    using busy_chunk [of s p b] by blast
qed

theorem each_blob_in_one_request_witness:
  "\<exists>s. exec exampleProps mounted
       [EvOpen 0, EvCreated, EvChunk [1, 2], EvChunk [3], EvEncoded 0, EvChunk [4],
        EvMessage 0 (answer []), EvEncoded 0, EvChunk [5]] = Some s \<and>
     drained s = [[[1, 2]], [[3], [4]]] \<and> audioBufferRef s = [[5]] \<and>
     concat (drained s) @ audioBufferRef s = [[1, 2], [3], [4], [5]] \<and>
     map snd (wire s) = [request exampleProps [1, 2], request exampleProps [3, 4]] \<and>
     requested exampleProps s \<subseteq># batches exampleProps s"
proof -
  let ?evs = "[EvOpen 0, EvCreated, EvChunk [1, 2], EvChunk [3], EvEncoded 0, EvChunk [4],
        EvMessage 0 (answer []), EvEncoded 0, EvChunk [5]]"
  have "map_option (\<lambda>s. (drained s, audioBufferRef s, map snd (wire s)))
      (exec exampleProps mounted ?evs)
    = Some ([[[1, 2]], [[3], [4]]], [[5]],
        [request exampleProps [1, 2], request exampleProps [3, 4]])"
    by code_simp
  then obtain s where run: "exec exampleProps mounted ?evs = Some s"
    and vals: "drained s = [[[1, 2]], [[3], [4]]]" "audioBufferRef s = [[5]]"
      "map snd (wire s) = [request exampleProps [1, 2], request exampleProps [3, 4]]"
    by auto
  from each_blob_in_one_request [OF run, of "[]" 0]
  have "concat (drained s) @ audioBufferRef s = chunks ?evs"
    and "requested exampleProps s \<subseteq># batches exampleProps s"
    by blast+
  then have "concat (drained s) @ audioBufferRef s = [[1, 2], [3], [4], [5]]"
    and "requested exampleProps s \<subseteq># batches exampleProps s"
    by (simp_all add: answer_def)
  with run vals show ?thesis
    by (intro exI [of _ s] conjI)
qed

end
